theory Spec2Isabelle
  imports Complex_Main "HOL-Library.Word"
begin

section \<open>Python values used by the scripts\<close>

text \<open>
  A Python \<open>str\<close> is a sequence of Unicode code points and a \<open>bytes\<close> object a sequence
  of octets. An ASCII literal of the scripts is written \<open>py ''...''\<close>.
\<close>

type_synonym py_str = "nat list"
type_synonym byte = "8 word"
type_synonym py_bytes = "byte list"

definition py :: "string \<Rightarrow> py_str" where
  "py s = map of_char s"

text \<open>
  The exceptions the modelled code can raise. \<open>struct.error\<close> carries only a message:
  the buffer size \<open>unpack\<close> requires, a number out of the range of its format, or the
  number of items \<open>pack\<close> expected and got. The Unicode errors carry the position of the
  offending code unit inside the object being converted.
\<close>

datatype struct_msg = BufferSize nat | OutOfRange | ItemCount nat nat

datatype py_error =
    StructError struct_msg
  | OverflowError
  | UnicodeDecodeError nat
  | UnicodeEncodeError nat
  | ValueError
  | IndexError

subsection \<open>Whitespace, \<open>str.strip\<close>, \<open>str.split\<close>, \<open>str.lower\<close>\<close>

text \<open>
  The code points for which \<open>str.isspace\<close> holds; \<open>str.split()\<close>, \<open>str.strip()\<close> and the
  class \<open>\s\<close> of \<open>re\<close> on a \<open>str\<close> pattern use the same set.
\<close>

definition isspace :: "nat \<Rightarrow> bool" where
  "isspace c \<longleftrightarrow>
     (0x09 \<le> c \<and> c \<le> 0x0D) \<or> (0x1C \<le> c \<and> c \<le> 0x20) \<or> c = 0x85 \<or> c = 0xA0 \<or>
     c = 0x1680 \<or> (0x2000 \<le> c \<and> c \<le> 0x200A) \<or> c = 0x2028 \<or> c = 0x2029 \<or>
     c = 0x202F \<or> c = 0x205F \<or> c = 0x3000"

definition strip :: "py_str \<Rightarrow> py_str" where
  "strip s = rev (dropWhile isspace (rev (dropWhile isspace s)))"

text \<open>
  \<open>s.split()\<close>: the maximal runs of non-whitespace characters, in order. \<open>split_from cur s\<close>
  carries the run read so far.
\<close>

fun split_from :: "py_str \<Rightarrow> py_str \<Rightarrow> py_str list" where
  "split_from cur [] = (if cur = [] then [] else [cur])"
| "split_from cur (c # cs) =
     (if isspace c then (if cur = [] then split_from [] cs else cur # split_from [] cs)
      else split_from (cur @ [c]) cs)"

definition split :: "py_str \<Rightarrow> py_str list" where
  "split s = split_from [] s"

text \<open>
  \<open>str.lower\<close>, as far as \<open>tokenize\<close> can observe it. The code points whose lowercase
  form contains a character of \<open>[a-z0-9]\<close> are \<open>A\<close> to \<open>Z\<close>, U+0130 (lowercased to
  \<open>i\<close> followed by U+0307) and U+212A (the Kelvin sign, lowercased to \<open>k\<close>). Every other
  code point lowercases to characters outside \<open>[a-z0-9]\<close>, each of which the substitution
  in \<open>tokenize\<close> turns into a separator or leaves as whitespace; it is kept as it is here.
\<close>

definition lower_char :: "nat \<Rightarrow> py_str" where
  "lower_char c =
     (if 0x41 \<le> c \<and> c \<le> 0x5A then [c + 0x20]
      else if c = 0x130 then [0x69, 0x307]
      else if c = 0x212A then [0x6B]
      else [c])"

definition lower :: "py_str \<Rightarrow> py_str" where
  "lower s = concat (map lower_char s)"

subsection \<open>\<open>struct\<close>: little-endian integers and single-precision floats\<close>

text \<open>
  \<open>nat_le n v\<close> are the \<open>n\<close> little-endian bytes of \<open>v\<close>, \<open>le_nat\<close> reads them back.
  \<open>struct.pack('<H', v)\<close> is \<open>pack_uint 2 v\<close> and \<open>struct.pack('<I', v)\<close> is
  \<open>pack_uint 4 v\<close>: a number outside the range of the format raises \<open>struct.error\<close>.
  \<open>struct.unpack\<close> raises \<open>struct.error\<close> on a buffer that has not exactly the size of
  the format.
\<close>

fun nat_le :: "nat \<Rightarrow> nat \<Rightarrow> py_bytes" where
  "nat_le 0 v = []"
| "nat_le (Suc n) v = of_nat (v mod 256) # nat_le n (v div 256)"

fun le_nat :: "py_bytes \<Rightarrow> nat" where
  "le_nat [] = 0"
| "le_nat (b # bs) = unat b + 256 * le_nat bs"

definition pack_uint :: "nat \<Rightarrow> nat \<Rightarrow> py_error + py_bytes" where
  "pack_uint n v = (if v < 256 ^ n then Inr (nat_le n v) else Inl (StructError OutOfRange))"

definition unpack_uint :: "nat \<Rightarrow> py_bytes \<Rightarrow> py_error + nat" where
  "unpack_uint n bs = (if length bs = n then Inr (le_nat bs) else Inl (StructError (BufferSize n)))"

definition VECTOR_DIM :: nat where
  "VECTOR_DIM = 100"

text \<open>
  A Python \<open>float\<close> is a value of an arbitrary type \<open>'f\<close>; the floating-point operations
  the scripts use are parameters of the model, so that every theorem holds for whatever
  these operations compute:
  \<^item> \<open>to_f32 x\<close>: the single-precision bit pattern format \<open>f\<close> of \<open>struct.pack\<close> writes
    for \<open>x\<close>, \<open>None\<close> where it raises \<open>OverflowError\<close>;
  \<^item> \<open>of_f32 w\<close>: the float that format \<open>f\<close> of \<open>struct.unpack\<close> reads from the pattern;
  \<^item> \<open>float_of s\<close>: \<open>float(s)\<close>, \<open>None\<close> where it raises \<open>ValueError\<close>;
  \<^item> \<open>fzero\<close>, \<open>fadd\<close> and \<open>fdiv\<close>: \<open>0.0\<close>, the sum of two floats and the quotient of a
    float by an \<open>int\<close>.
  Byte order and layout are not parameters: a pattern is written as its four
  little-endian bytes.
\<close>

record 'f float_ops =
  to_f32 :: "'f \<Rightarrow> 32 word option"
  of_f32 :: "32 word \<Rightarrow> 'f"
  float_of :: "py_str \<Rightarrow> 'f option"
  fzero :: "'f"
  fadd :: "'f \<Rightarrow> 'f \<Rightarrow> 'f"
  fdiv :: "'f \<Rightarrow> nat \<Rightarrow> 'f"

text \<open>\<open>those\<close> of the list library, with the position of the first failure.\<close>

fun pack_f32s :: "('f \<Rightarrow> 32 word option) \<Rightarrow> 'f list \<Rightarrow> py_error + py_bytes" where
  "pack_f32s pk [] = Inr []"
| "pack_f32s pk (x # xs) =
     (case pk x of
        None \<Rightarrow> Inl OverflowError
      | Some w \<Rightarrow>
          (case pack_f32s pk xs of
             Inl e \<Rightarrow> Inl e
           | Inr bs \<Rightarrow> Inr (nat_le 4 (unat w) @ bs)))"

text \<open>\<open>struct.pack(f'<{VECTOR_DIM}f', *vector)\<close>\<close>

definition pack_floats :: "'f float_ops \<Rightarrow> 'f list \<Rightarrow> py_error + py_bytes" where
  "pack_floats fl vector =
     (if length vector \<noteq> VECTOR_DIM then Inl (StructError (ItemCount VECTOR_DIM (length vector)))
      else pack_f32s (to_f32 fl) vector)"

fun unpack_f32s :: "(32 word \<Rightarrow> 'f) \<Rightarrow> nat \<Rightarrow> py_bytes \<Rightarrow> 'f list" where
  "unpack_f32s up 0 bs = []"
| "unpack_f32s up (Suc k) bs = up (of_nat (le_nat (take 4 bs))) # unpack_f32s up k (drop 4 bs)"

text \<open>\<open>list(struct.unpack(f'<{VECTOR_DIM}f', buf))\<close>\<close>

definition unpack_floats :: "'f float_ops \<Rightarrow> py_bytes \<Rightarrow> py_error + 'f list" where
  "unpack_floats fl buf =
     (if length buf = VECTOR_DIM * 4 then Inr (unpack_f32s (of_f32 fl) VECTOR_DIM buf)
      else Inl (StructError (BufferSize (VECTOR_DIM * 4))))"

subsection \<open>UTF-8\<close>

text \<open>
  \<open>word.encode('utf-8')\<close>: one to four bytes for each code point; a surrogate (and a
  number that is no code point) cannot be encoded. \<open>utf8_encode_at p s\<close> encodes the
  characters from position \<open>p\<close> on and returns the position of the first one it cannot
  encode.
\<close>

definition utf8_encode_char :: "nat \<Rightarrow> py_bytes option" where
  "utf8_encode_char c =
     (if c < 0x80 then Some [of_nat c]
      else if c < 0x800 then Some [of_nat (0xC0 + c div 64), of_nat (0x80 + c mod 64)]
      else if c < 0x10000 then
        (if 0xD800 \<le> c \<and> c \<le> 0xDFFF then None
         else Some [of_nat (0xE0 + c div 4096), of_nat (0x80 + c div 64 mod 64),
                    of_nat (0x80 + c mod 64)])
      else if c < 0x110000 then
        Some [of_nat (0xF0 + c div 262144), of_nat (0x80 + c div 4096 mod 64),
              of_nat (0x80 + c div 64 mod 64), of_nat (0x80 + c mod 64)]
      else None)"

fun utf8_encode_at :: "nat \<Rightarrow> py_str \<Rightarrow> nat + py_bytes" where
  "utf8_encode_at p [] = Inr []"
| "utf8_encode_at p (c # cs) =
     (case utf8_encode_char c of
        None \<Rightarrow> Inl p
      | Some b \<Rightarrow>
          (case utf8_encode_at (Suc p) cs of
             Inl e \<Rightarrow> Inl e
           | Inr bs \<Rightarrow> Inr (b @ bs)))"

definition utf8_encode :: "py_str \<Rightarrow> py_error + py_bytes" where
  "utf8_encode s =
     (case utf8_encode_at 0 s of Inl p \<Rightarrow> Inl (UnicodeEncodeError p) | Inr bs \<Rightarrow> Inr bs)"

text \<open>
  \<open>buf.decode('utf-8')\<close>: the strict decoder. It accepts the well-formed sequences only
  (no overlong form, no surrogate, nothing above U+10FFFF, no sequence cut short) and
  raises \<open>UnicodeDecodeError\<close> at the first byte of the first ill-formed sequence, the
  position \<open>utf8_decode_at\<close> returns.
\<close>

definition is_cont :: "byte \<Rightarrow> bool" where
  "is_cont b \<longleftrightarrow> 0x80 \<le> unat b \<and> unat b < 0xC0"

definition decoded :: "nat \<Rightarrow> nat + py_str \<Rightarrow> nat + py_str" where
  "decoded c r = (case r of Inl e \<Rightarrow> Inl e | Inr s \<Rightarrow> Inr (c # s))"

text \<open>The code point a lead byte and its continuation bytes stand for.\<close>

definition cp2 :: "byte \<Rightarrow> byte \<Rightarrow> nat" where
  "cp2 b0 b1 = (unat b0 - 0xC0) * 64 + (unat b1 - 0x80)"

definition cp3 :: "byte \<Rightarrow> byte \<Rightarrow> byte \<Rightarrow> nat" where
  "cp3 b0 b1 b2 = (unat b0 - 0xE0) * 4096 + (unat b1 - 0x80) * 64 + (unat b2 - 0x80)"

definition cp4 :: "byte \<Rightarrow> byte \<Rightarrow> byte \<Rightarrow> byte \<Rightarrow> nat" where
  "cp4 b0 b1 b2 b3 =
     (unat b0 - 0xF0) * 262144 + (unat b1 - 0x80) * 4096 + (unat b2 - 0x80) * 64 + (unat b3 - 0x80)"

fun utf8_decode_at :: "nat \<Rightarrow> py_bytes \<Rightarrow> nat + py_str" where
  "utf8_decode_at p [] = Inr []"
| "utf8_decode_at p (b0 # bs) =
     (if unat b0 < 0x80 then decoded (unat b0) (utf8_decode_at (p + 1) bs)
      else if 0xC2 \<le> unat b0 \<and> unat b0 < 0xE0 then
        (case bs of
           b1 # r \<Rightarrow>
             if is_cont b1 then decoded (cp2 b0 b1) (utf8_decode_at (p + 2) r)
             else Inl p
         | _ \<Rightarrow> Inl p)
      else if 0xE0 \<le> unat b0 \<and> unat b0 < 0xF0 then
        (case bs of
           b1 # b2 # r \<Rightarrow>
             if is_cont b1 \<and> is_cont b2 \<and> 0x800 \<le> cp3 b0 b1 b2 \<and>
                \<not> (0xD800 \<le> cp3 b0 b1 b2 \<and> cp3 b0 b1 b2 \<le> 0xDFFF)
             then decoded (cp3 b0 b1 b2) (utf8_decode_at (p + 3) r)
             else Inl p
         | _ \<Rightarrow> Inl p)
      else if 0xF0 \<le> unat b0 \<and> unat b0 < 0xF5 then
        (case bs of
           b1 # b2 # b3 # r \<Rightarrow>
             if is_cont b1 \<and> is_cont b2 \<and> is_cont b3 \<and>
                0x10000 \<le> cp4 b0 b1 b2 b3 \<and> cp4 b0 b1 b2 b3 < 0x110000
             then decoded (cp4 b0 b1 b2 b3) (utf8_decode_at (p + 4) r)
             else Inl p
         | _ \<Rightarrow> Inl p)
      else Inl p)"

definition utf8_decode :: "py_bytes \<Rightarrow> py_error + py_str" where
  "utf8_decode buf =
     (case utf8_decode_at 0 buf of Inl p \<Rightarrow> Inl (UnicodeDecodeError p) | Inr s \<Rightarrow> Inr s)"

section \<open>The vector store\<close>

text \<open>
  The store is a Python \<open>dict\<close> from words to vectors. A \<open>dict\<close> keeps its keys in the
  order of their first insertion, and \<open>save_binary_format\<close> writes them in that order, so
  the store is a list of pairs with distinct keys. \<open>dict_set d k v\<close> is \<open>d[k] = v\<close>: the
  value of a key already present is replaced where it stands, a new key goes last.
  \<open>dict_get d k\<close> is the lookup, \<open>None\<close> where \<open>k in d\<close> is false.
\<close>

type_synonym 'f store = "(py_str \<times> 'f list) list"

fun dict_set :: "('k \<times> 'v) list \<Rightarrow> 'k \<Rightarrow> 'v \<Rightarrow> ('k \<times> 'v) list" where
  "dict_set [] k v = [(k, v)]"
| "dict_set ((k', v') # d) k v = (if k' = k then (k, v) # d else (k', v') # dict_set d k v)"

definition dict_get :: "('k \<times> 'v) list \<Rightarrow> 'k \<Rightarrow> 'v option" where
  "dict_get d k = map_of d k"

text \<open>
  The invariant of the data model: the keys are distinct (it is a \<open>dict\<close>) and every
  vector has \<open>VECTOR_DIM\<close> components.
\<close>

definition vector_store :: "'f store \<Rightarrow> bool" where
  "vector_store d \<longleftrightarrow> distinct (map fst d) \<and> (\<forall>v \<in> set (map snd d). length v = VECTOR_DIM)"

text \<open>
  What \<open>struct\<close> reads back from what it wrote for a float, with the format \<open>f\<close>: the
  float of the pattern that packing gave (the float itself where packing raises; no
  theorem reads that case). A float is a single-precision value when it is read back
  unchanged. An entry is storable when its word has a UTF-8 encoding of at most 65535
  bytes (the range of the length field) and its vector has \<open>VECTOR_DIM\<close> components
  that \<open>struct\<close> packs. The rounded store keeps the words, in their order, and rounds
  every component.
\<close>

definition round_f32 :: "'f float_ops \<Rightarrow> 'f \<Rightarrow> 'f" where
  "round_f32 fl x = (case to_f32 fl x of None \<Rightarrow> x | Some w \<Rightarrow> of_f32 fl w)"

definition single_precision :: "'f float_ops \<Rightarrow> 'f \<Rightarrow> bool" where
  "single_precision fl x \<longleftrightarrow> (\<exists>w. to_f32 fl x = Some w \<and> of_f32 fl w = x)"

definition storable :: "'f float_ops \<Rightarrow> py_str \<times> 'f list \<Rightarrow> bool" where
  "storable fl e \<longleftrightarrow>
     (\<exists>bs. utf8_encode (fst e) = Inr bs \<and> length bs \<le> 65535) \<and>
     length (snd e) = VECTOR_DIM \<and>
     (\<forall>x \<in> set (snd e). to_f32 fl x \<noteq> None)"

definition rounded_store :: "'f float_ops \<Rightarrow> 'f store \<Rightarrow> 'f store" where
  "rounded_store fl d = map (\<lambda>(w, v). (w, map (round_f32 fl) v)) d"

section \<open>prepare\_glove.py\<close>

subsection \<open>\<open>load_glove_vectors\<close>\<close>

text \<open>\<open>[float(x) for x in parts[1:]]\<close>: the first token that is no number raises.\<close>

fun parse_floats :: "(py_str \<Rightarrow> 'f option) \<Rightarrow> py_str list \<Rightarrow> py_error + 'f list" where
  "parse_floats fo [] = Inr []"
| "parse_floats fo (x # xs) =
     (case fo x of
        None \<Rightarrow> Inl ValueError
      | Some y \<Rightarrow> (case parse_floats fo xs of Inl e \<Rightarrow> Inl e | Inr ys \<Rightarrow> Inr (y # ys)))"

text \<open>
  What the loop body computes from a line before it decides to keep it:
  \<open>parts = line.strip().split()\<close>, \<open>word = parts[0]\<close>, which raises \<open>IndexError\<close> on a
  line without a token, and the vector.
\<close>

definition parse_line :: "'f float_ops \<Rightarrow> py_str \<Rightarrow> py_error + py_str \<times> 'f list" where
  "parse_line fl line =
     (case split (strip line) of
        [] \<Rightarrow> Inl IndexError
      | word # xs \<Rightarrow>
          (case parse_floats (float_of fl) xs of
             Inl e \<Rightarrow> Inl e
           | Inr vector \<Rightarrow> Inr (word, vector)))"

text \<open>
  The loop \<open>for i, line in enumerate(f)\<close> over the lines that are left, with the index
  \<open>i\<close> of the next line and the dictionary built so far. The progress messages are
  left out.
\<close>

fun load_lines ::
  "'f float_ops \<Rightarrow> int \<Rightarrow> nat \<Rightarrow> py_str list \<Rightarrow> 'f store \<Rightarrow> py_error + 'f store" where
  "load_lines fl top_k i [] vectors = Inr vectors"
| "load_lines fl top_k i (line # rest) vectors =
     (if int i \<ge> top_k then Inr vectors
      else
        (case parse_line fl line of
           Inl e \<Rightarrow> Inl e
         | Inr (word, vector) \<Rightarrow>
             if length vector \<noteq> VECTOR_DIM then load_lines fl top_k (Suc i) rest vectors
             else load_lines fl top_k (Suc i) rest (dict_set vectors word vector)))"

text \<open>The argument \<open>lines\<close> is the text file, as the sequence of its lines.\<close>

definition load_glove_vectors :: "'f float_ops \<Rightarrow> py_str list \<Rightarrow> int \<Rightarrow> py_error + 'f store" where
  "load_glove_vectors fl lines top_k = load_lines fl top_k 0 lines []"

definition TOP_K_WORDS :: int where
  "TOP_K_WORDS = 100000"

subsection \<open>\<open>save_binary_format\<close>\<close>

text \<open>
  The bytes written for the entries, in the order of \<open>vectors.items()\<close>; the result of
  \<open>save_binary_format\<close> is the content of the output file. An exception leaves the
  function, and the bytes written before it are not part of the result.
\<close>

fun save_entries :: "'f float_ops \<Rightarrow> 'f store \<Rightarrow> py_error + py_bytes" where
  "save_entries fl [] = Inr []"
| "save_entries fl ((word, vector) # rest) =
     (case utf8_encode word of
        Inl e \<Rightarrow> Inl e
      | Inr word_bytes \<Rightarrow>
          (case pack_uint 2 (length word_bytes) of
             Inl e \<Rightarrow> Inl e
           | Inr len_bytes \<Rightarrow>
               (case pack_floats fl vector of
                  Inl e \<Rightarrow> Inl e
                | Inr vec_bytes \<Rightarrow>
                    (case save_entries fl rest of
                       Inl e \<Rightarrow> Inl e
                     | Inr bs \<Rightarrow> Inr (len_bytes @ word_bytes @ vec_bytes @ bs)))))"

definition save_binary_format :: "'f float_ops \<Rightarrow> 'f store \<Rightarrow> py_error + py_bytes" where
  "save_binary_format fl vectors =
     (case pack_uint 4 (length vectors) of
        Inl e \<Rightarrow> Inl e
      | Inr header \<Rightarrow>
          (case save_entries fl vectors of Inl e \<Rightarrow> Inl e | Inr bs \<Rightarrow> Inr (header @ bs)))"

section \<open>embed\_commands.py\<close>

subsection \<open>\<open>load_glove_binary\<close>\<close>

text \<open>
  \<open>f.read(n)\<close> returns the next \<open>n\<close> bytes of the file, or as many as are left; the file
  is the list of the bytes not read yet. \<open>load_entries\<close> is the loop
  \<open>for i in range(vocab_size)\<close> with the number of rounds left.
\<close>

fun load_entries :: "'f float_ops \<Rightarrow> nat \<Rightarrow> py_bytes \<Rightarrow> 'f store \<Rightarrow> py_error + 'f store" where
  "load_entries fl 0 f vectors = Inr vectors"
| "load_entries fl (Suc n) f vectors =
     (case unpack_uint 2 (take 2 f) of
        Inl e \<Rightarrow> Inl e
      | Inr word_len \<Rightarrow>
          (case utf8_decode (take word_len (drop 2 f)) of
             Inl e \<Rightarrow> Inl e
           | Inr word \<Rightarrow>
               (case unpack_floats fl (take (VECTOR_DIM * 4) (drop word_len (drop 2 f))) of
                  Inl e \<Rightarrow> Inl e
                | Inr vector \<Rightarrow>
                    load_entries fl n (drop (VECTOR_DIM * 4) (drop word_len (drop 2 f)))
                      (dict_set vectors word vector))))"

definition load_glove_binary :: "'f float_ops \<Rightarrow> py_bytes \<Rightarrow> py_error + 'f store" where
  "load_glove_binary fl f =
     (case unpack_uint 4 (take 4 f) of
        Inl e \<Rightarrow> Inl e
      | Inr vocab_size \<Rightarrow> load_entries fl vocab_size (drop 4 f) [])"

subsection \<open>\<open>tokenize\<close>\<close>

text \<open>\<open>re.sub(r'[^a-z0-9\s]', ' ', text)\<close>\<close>

definition keep_char :: "nat \<Rightarrow> bool" where
  "keep_char c \<longleftrightarrow> (0x61 \<le> c \<and> c \<le> 0x7A) \<or> (0x30 \<le> c \<and> c \<le> 0x39) \<or> isspace c"

definition re_sub :: "py_str \<Rightarrow> py_str" where
  "re_sub text = map (\<lambda>c. if keep_char c then c else 0x20) text"

definition tokenize :: "py_str \<Rightarrow> py_str list" where
  "tokenize text =
     (if text = [] then []
      else filter (\<lambda>t. length t \<ge> 2) (split (re_sub (lower text))))"

subsection \<open>\<open>compute_embedding\<close>\<close>

text \<open>
  A command record, with the shape of the data model: \<open>command\<close> and \<open>description\<close> are
  texts and \<open>keywords\<close> is a sequence of texts. \<open>None\<close> is a field that is absent or null:
  \<open>dict.get\<close> returns \<open>None\<close> for both. \<open>str(text)\<close> of a text is the text.
\<close>

record command_record =
  command :: "py_str option"
  description :: "py_str option"
  keywords_field :: "py_str list option"

text \<open>The truth value of \<open>command.get(key)\<close>: \<open>None\<close>, \<open>''\<close> and \<open>[]\<close> are false.\<close>

definition truthy :: "'a list option \<Rightarrow> bool" where
  "truthy x \<longleftrightarrow> (case x of None \<Rightarrow> False | Some v \<Rightarrow> v \<noteq> [])"

definition embedding_texts :: "command_record \<Rightarrow> py_str list" where
  "embedding_texts c =
     (let texts = [];
          texts = (if truthy (command c) then texts @ [the (command c)] else texts);
          texts = (if truthy (description c) then texts @ [the (description c)] else texts);
          texts = (if truthy (keywords_field c) then texts @ the (keywords_field c) else texts)
      in texts)"

text \<open>\<open>for text in texts: all_tokens.extend(tokenize(str(text)))\<close>\<close>

fun extend_tokens :: "py_str list \<Rightarrow> py_str list \<Rightarrow> py_str list" where
  "extend_tokens all_tokens [] = all_tokens"
| "extend_tokens all_tokens (text # texts) = extend_tokens (all_tokens @ tokenize text) texts"

text \<open>\<open>for token in all_tokens: if token in word_vectors: vectors.append(word_vectors[token])\<close>\<close>

fun matched_vectors :: "'f store \<Rightarrow> 'f list list \<Rightarrow> py_str list \<Rightarrow> 'f list list" where
  "matched_vectors word_vectors vectors [] = vectors"
| "matched_vectors word_vectors vectors (token # tokens) =
     (case dict_get word_vectors token of
        Some v \<Rightarrow> matched_vectors word_vectors (vectors @ [v]) tokens
      | None \<Rightarrow> matched_vectors word_vectors vectors tokens)"

text \<open>
  \<open>for i in range(VECTOR_DIM): embedding[i] += vec[i]\<close>, over the indices that are left.
  An index out of range raises \<open>IndexError\<close>.
\<close>

fun add_vector :: "'f float_ops \<Rightarrow> nat list \<Rightarrow> 'f list \<Rightarrow> 'f list \<Rightarrow> py_error + 'f list" where
  "add_vector fl [] embedding vec = Inr embedding"
| "add_vector fl (i # is) embedding vec =
     (if i < length embedding \<and> i < length vec
      then add_vector fl is (embedding[i := fadd fl (embedding ! i) (vec ! i)]) vec
      else Inl IndexError)"

text \<open>\<open>for vec in vectors: ...\<close>\<close>

fun add_vectors :: "'f float_ops \<Rightarrow> 'f list \<Rightarrow> 'f list list \<Rightarrow> py_error + 'f list" where
  "add_vectors fl embedding [] = Inr embedding"
| "add_vectors fl embedding (vec # vectors) =
     (case add_vector fl [0..<VECTOR_DIM] embedding vec of
        Inl e \<Rightarrow> Inl e
      | Inr embedding' \<Rightarrow> add_vectors fl embedding' vectors)"

text \<open>\<open>for i in range(VECTOR_DIM): embedding[i] /= len(vectors)\<close>\<close>

fun divide_all :: "'f float_ops \<Rightarrow> nat list \<Rightarrow> 'f list \<Rightarrow> nat \<Rightarrow> py_error + 'f list" where
  "divide_all fl [] embedding n = Inr embedding"
| "divide_all fl (i # is) embedding n =
     (if i < length embedding
      then divide_all fl is (embedding[i := fdiv fl (embedding ! i) n]) n
      else Inl IndexError)"

definition compute_embedding ::
  "'f float_ops \<Rightarrow> command_record \<Rightarrow> 'f store \<Rightarrow> py_error + 'f list" where
  "compute_embedding fl cmd word_vectors =
     (let texts = embedding_texts cmd;
          all_tokens = extend_tokens [] texts;
          vectors = matched_vectors word_vectors [] all_tokens
      in if vectors \<noteq> [] then
           (case add_vectors fl (replicate VECTOR_DIM (fzero fl)) vectors of
              Inl e \<Rightarrow> Inl e
            | Inr embedding \<Rightarrow> divide_all fl [0..<VECTOR_DIM] embedding (length vectors))
         else Inr (replicate VECTOR_DIM (fzero fl)))"

text \<open>
  The embedding as the specification words it, to compare \<open>compute_embedding\<close> with.
  The token stream: the tokens of \<open>command\<close>, then those of \<open>description\<close>, then those of
  each keyword in list order, a field that is missing contributing none. The matched
  vectors: the vectors of the tokens that are keys of the store, in the order of the
  tokens. The embedding: at each index from 0 to 99 the sum of the components of the
  matched vectors, taken from \<open>0\<close> in their order, divided by their number; the zero
  vector when no token matches.
\<close>

definition spec_token_stream :: "command_record \<Rightarrow> py_str list" where
  "spec_token_stream cmd =
     (case command cmd of None \<Rightarrow> [] | Some s \<Rightarrow> tokenize s) @
     (case description cmd of None \<Rightarrow> [] | Some s \<Rightarrow> tokenize s) @
     (case keywords_field cmd of None \<Rightarrow> [] | Some ks \<Rightarrow> concat (map tokenize ks))"

definition spec_matched :: "'f store \<Rightarrow> py_str list \<Rightarrow> 'f list list" where
  "spec_matched word_vectors tokens =
     map (\<lambda>t. the (dict_get word_vectors t)) (filter (\<lambda>t. t \<in> set (map fst word_vectors)) tokens)"

definition spec_embedding :: "'f float_ops \<Rightarrow> command_record \<Rightarrow> 'f store \<Rightarrow> 'f list" where
  "spec_embedding fl cmd word_vectors =
     (let vectors = spec_matched word_vectors (spec_token_stream cmd)
      in if vectors = [] then replicate 100 (fzero fl)
         else map (\<lambda>i. fdiv fl (foldl (fadd fl) (fzero fl) (map (\<lambda>v. v ! i) vectors))
                          (length vectors)) [0..<100])"

subsection \<open>\<open>save_embeddings\<close> and \<open>main\<close>\<close>





section \<open>Instances of the floating-point operations\<close>

text \<open>
  The examples evaluate the model on floats that are exact in binary: the rationals
  \<open>0\<close>, \<open>1/2\<close> and \<open>1\<close> with their single-precision patterns, exact addition and
  division, and \<open>float\<close> on a string of ASCII digits. On these values the operations
  agree with Python's. The instance says nothing about other values; the theorems
  about the scripts hold for every instance, and only the examples use this one.
\<close>

fun digits_value :: "nat \<Rightarrow> py_str \<Rightarrow> nat option" where
  "digits_value acc [] = Some acc"
| "digits_value acc (c # cs) =
     (if 0x30 \<le> c \<and> c \<le> 0x39 then digits_value (10 * acc + (c - 0x30)) cs else None)"

definition exact_ops :: "rat float_ops" where
  "exact_ops =
     \<lparr> to_f32 = (\<lambda>x. if x = 0 then Some 0 else if x = 1 / 2 then Some 0x3F000000
                      else if x = 1 then Some 0x3F800000 else None),
       of_f32 = (\<lambda>w. if w = 0x3F000000 then 1 / 2 else if w = 0x3F800000 then 1 else 0),
       float_of = (\<lambda>s. if s = [] then None else map_option of_nat (digits_value 0 s)),
       fzero = 0,
       fadd = (\<lambda>x y. x + y),
       fdiv = (\<lambda>x n. x / of_nat n) \<rparr>"

text \<open>
  The same instance with one float that is not a single-precision value: the double
  nearest to \<open>0.1\<close>, which is \<open>3602879701896397 / 2 ^ 55\<close>. Python packs it with the
  format \<open>f\<close> to the bytes \<open>cd cc cc 3d\<close>, the pattern \<open>0x3DCCCCCD\<close>, and unpacks
  that pattern to \<open>13421773 / 2 ^ 27\<close>, which it prints as \<open>0.10000000149011612\<close>.
\<close>

definition rounding_ops :: "rat float_ops" where
  "rounding_ops =
     \<lparr> to_f32 = (\<lambda>x. if x = 3602879701896397 / 36028797018963968 then Some 0x3DCCCCCD
                      else if x = 13421773 / 134217728 then Some 0x3DCCCCCD
                      else to_f32 exact_ops x),
       of_f32 = (\<lambda>w. if w = 0x3DCCCCCD then 13421773 / 134217728 else of_f32 exact_ops w),
       float_of = (\<lambda>s. if s = py ''0.1'' then Some (3602879701896397 / 36028797018963968)
                        else float_of exact_ops s),
       fzero = 0,
       fadd = (\<lambda>x y. x + y),
       fdiv = (\<lambda>x n. x / of_nat n) \<rparr>"

text \<open>
  An instance whose addition does not commute, to see in which order a sum is taken:
  adding the digits \<open>d1\<close>, \<open>d2\<close>, ... to \<open>0\<close> one after the other gives the number
  written \<open>d1 d2 ...\<close> in base ten, and division leaves its argument as it is. It is
  no model of Python's floats; an example uses it where the order of the summands
  has to show in the result.
\<close>

definition order_ops :: "rat float_ops" where
  "order_ops =
     \<lparr> to_f32 = to_f32 exact_ops,
       of_f32 = of_f32 exact_ops,
       float_of = float_of exact_ops,
       fzero = 0,
       fadd = (\<lambda>x y. 10 * x + y),
       fdiv = (\<lambda>x n. x) \<rparr>"

section \<open>The tokenizer\<close>

lemmas tokenize_eval =
  tokenize_def py_def lower_def lower_char_def re_sub_def keep_char_def isspace_def split_def

lemma split_from_tokens:
  "t \<in> set (split_from cur s) \<Longrightarrow> t \<noteq> [] \<and> set t \<subseteq> set cur \<union> {c \<in> set s. \<not> isspace c}"
proof (induction s arbitrary: cur)
  case Nil
  then show ?case by (auto split: if_splits)
next
  case (Cons c cs)
  show ?case
  proof (cases "isspace c")
    case True
    with Cons.prems have "t = cur \<and> cur \<noteq> [] \<or> t \<in> set (split_from [] cs)"
      by (auto split: if_splits)
    then show ?thesis
    proof
      assume "t = cur \<and> cur \<noteq> []"
      then show ?thesis by auto
    next
      assume "t \<in> set (split_from [] cs)"
      from Cons.IH [OF this] show ?thesis by auto
    qed
  next
    case False
    with Cons.prems have "t \<in> set (split_from (cur @ [c]) cs)" by simp
    from Cons.IH [OF this] False show ?thesis by auto
  qed
qed

lemma split_tokens:
  "t \<in> set (split s) \<Longrightarrow> t \<noteq> [] \<and> (\<forall>c \<in> set t. c \<in> set s \<and> \<not> isspace c)"
  using split_from_tokens [of t "[]" s] by (auto simp: split_def)

lemma isspace_32: "isspace 0x20"
  by (simp add: isspace_def)

lemma re_sub_chars:
  assumes c: "c \<in> set (re_sub s)" and ns: "\<not> isspace c"
  shows "(0x61 \<le> c \<and> c \<le> 0x7A) \<or> (0x30 \<le> c \<and> c \<le> 0x39)"
proof -
  from c obtain x where "c = (if keep_char x then x else 0x20)"
    unfolding re_sub_def set_map by blast
  with ns isspace_32 have "keep_char c" by (cases "keep_char x") auto
  with ns show ?thesis by (simp add: keep_char_def)
qed

lemma tokenize_pipeline:
  "tokenize text = filter (\<lambda>t. length t \<ge> 2) (split (re_sub (lower text)))"
  by (simp add: tokenize_def split_def re_sub_def lower_def)

lemma split_from_spaces:
  "\<forall>x \<in> set ws. isspace x \<Longrightarrow> split_from [] (ws @ rest) = split_from [] rest"
  by (induction ws) auto

lemma split_from_separator:
  assumes "ws \<noteq> []" "\<forall>x \<in> set ws. isspace x"
  shows "split_from cur (ws @ rest)
         = (if cur = [] then split_from [] rest else cur # split_from [] rest)"
proof -
  from assms obtain w ws' where ws: "ws = w # ws'" and w: "isspace w"
    and ws': "\<forall>x \<in> set ws'. isspace x" by (cases ws) auto
  from split_from_spaces [OF ws', of rest] w show ?thesis by (simp add: ws)
qed

lemma split_from_prefix:
  "(\<And>cur. split_from cur xs = split_from cur ys) \<Longrightarrow>
   split_from cur (t @ xs) = split_from cur (t @ ys)"
  by (induction t arbitrary: cur) auto

lemma re_sub_separator:
  assumes "p \<noteq> []"
    and "\<forall>x \<in> set p. \<not> ((0x61 \<le> x \<and> x \<le> 0x7A) \<or> (0x30 \<le> x \<and> x \<le> 0x39))"
  shows "re_sub p \<noteq> [] \<and> (\<forall>x \<in> set (re_sub p). isspace x)"
proof
  from assms(1) show "re_sub p \<noteq> []" by (simp add: re_sub_def)
  show "\<forall>x \<in> set (re_sub p). isspace x"
  proof
    fix x assume "x \<in> set (re_sub p)"
    then obtain y where y: "y \<in> set p" and x: "x = (if keep_char y then y else 0x20)"
      unfolding re_sub_def set_map by blast
    from assms(2) y have "keep_char y \<longrightarrow> isspace y" by (auto simp: keep_char_def)
    with x isspace_32 show "isspace x" by (cases "keep_char y") auto
  qed
qed

text \<open>
  \<open>tokenize\<close> does not depend on how \<open>lower\<close> treats the code points it leaves
  unchanged. Let the lowercase form of the text be any concatenation of one part for
  each character, where the part of \<open>A\<close> to \<open>Z\<close>, of U+0130, of U+212A and of a
  character of \<open>[a-z0-9]\<close> is the one \<open>lower_char\<close> gives, and the part of any other
  character is any non-empty string without a character of \<open>[a-z0-9]\<close>, as the
  lowercase form of such a character is in Python. Then the tokens are those of
  \<open>tokenize\<close>.
\<close>

lemma tokenize_lower_insensitive:
  assumes "list_all2 (\<lambda>c p.
      if (0x41 \<le> c \<and> c \<le> 0x5A) \<or> c = 0x130 \<or> c = 0x212A \<or>
         (0x61 \<le> c \<and> c \<le> 0x7A) \<or> (0x30 \<le> c \<and> c \<le> 0x39)
      then p = lower_char c
      else p \<noteq> [] \<and> (\<forall>x \<in> set p. \<not> ((0x61 \<le> x \<and> x \<le> 0x7A) \<or> (0x30 \<le> x \<and> x \<le> 0x39))))
    s parts"
  shows "filter (\<lambda>t. length t \<ge> 2) (split (re_sub (concat parts))) = tokenize s"
proof -
  have "split_from cur (re_sub (concat parts)) = split_from cur (re_sub (lower s))" for cur
    using assms
  proof (induction s parts arbitrary: cur rule: list_all2_induct)
    case Nil
    then show ?case by (simp add: lower_def)
  next
    case (Cons c s p parts)
    note ih = Cons.IH
    show ?case
    proof (cases "(0x41 \<le> c \<and> c \<le> 0x5A) \<or> c = 0x130 \<or> c = 0x212A \<or>
         (0x61 \<le> c \<and> c \<le> 0x7A) \<or> (0x30 \<le> c \<and> c \<le> 0x39)")
      case True
      with Cons.hyps(1) have p: "p = lower_char c" by simp
      have "split_from cur (re_sub p @ re_sub (concat parts))
            = split_from cur (re_sub p @ re_sub (lower s))"
        using ih by (rule split_from_prefix)
      then show ?thesis by (simp add: p lower_def re_sub_def)
    next
      case False
      with Cons.hyps(1) have "p \<noteq> []"
        "\<forall>x \<in> set p. \<not> ((0x61 \<le> x \<and> x \<le> 0x7A) \<or> (0x30 \<le> x \<and> x \<le> 0x39))"
        by simp_all
      from re_sub_separator [OF this] have s1: "re_sub p \<noteq> [] \<and> (\<forall>x \<in> set (re_sub p). isspace x)" .
      from False have lc: "lower_char c = [c]" by (simp add: lower_char_def)
      from False have "[c] \<noteq> []"
        "\<forall>x \<in> set [c]. \<not> ((0x61 \<le> x \<and> x \<le> 0x7A) \<or> (0x30 \<le> x \<and> x \<le> 0x39))"
        by simp_all
      from re_sub_separator [OF this]
      have s2: "re_sub [c] \<noteq> [] \<and> (\<forall>x \<in> set (re_sub [c]). isspace x)" .
      have "split_from cur (re_sub p @ re_sub (concat parts))
            = (if cur = [] then split_from [] (re_sub (concat parts))
               else cur # split_from [] (re_sub (concat parts)))"
        using s1 by (intro split_from_separator) simp_all
      also have "\<dots> = (if cur = [] then split_from [] (re_sub (lower s))
               else cur # split_from [] (re_sub (lower s)))"
        by (simp add: ih)
      also have "\<dots> = split_from cur (re_sub [c] @ re_sub (lower s))"
        using s2 by (intro split_from_separator [symmetric]) simp_all
      finally show ?thesis by (simp add: lower_def lc re_sub_def)
    qed
  qed
  then show ?thesis by (simp add: tokenize_pipeline split_def)
qed

text \<open>
  Claim C7, as amended. \<open>tokenize\<close> lowercases the text, replaces every character outside
  \<open>[a-z0-9]\<close> and whitespace by a space, splits at whitespace and drops the tokens of
  fewer than two characters (the guard on the empty text changes nothing), so that a
  token has at least two characters, all of them in \<open>[a-z0-9]\<close>. On \<open>Git-Log v2!!\<close> it
  returns \<open>git\<close>, \<open>log\<close> and \<open>v2\<close>: the hyphen and the punctuation separate, \<open>!!\<close>
  leaves no empty token, and \<open>v2\<close> has two characters and is kept.
\<close>

theorem tokenize_git_log_v2:
  "tokenize (py ''Git-Log v2!!'') = [py ''git'', py ''log'', py ''v2''] \<and>
   tokenize text = filter (\<lambda>t. length t \<ge> 2) (split (re_sub (lower text))) \<and>
   (\<forall>t \<in> set (tokenize text). length t \<ge> 2 \<and>
      (\<forall>c \<in> set t. (0x61 \<le> c \<and> c \<le> 0x7A) \<or> (0x30 \<le> c \<and> c \<le> 0x39)))"
proof (intro conjI ballI)
  show "tokenize (py ''Git-Log v2!!'') = [py ''git'', py ''log'', py ''v2'']"
    by (simp add: tokenize_eval)
  show "tokenize text = filter (\<lambda>t. length t \<ge> 2) (split (re_sub (lower text)))"
    by (rule tokenize_pipeline)
next
  fix t assume "t \<in> set (tokenize text)"
  then show "length t \<ge> 2" by (simp add: tokenize_pipeline)
next
  fix t c assume t: "t \<in> set (tokenize text)" and c: "c \<in> set t"
  from t have "t \<in> set (split (re_sub (lower text)))" by (simp add: tokenize_pipeline)
  from split_tokens [OF this] c have "c \<in> set (re_sub (lower text))" "\<not> isspace c" by auto
  then show "(0x61 \<le> c \<and> c \<le> 0x7A) \<or> (0x30 \<le> c \<and> c \<le> 0x39)" by (rule re_sub_chars)
qed

theorem tokenize_git_log_v2_witness:
  "py ''v2'' \<in> set (tokenize (py ''Git-Log v2!!'')) \<and> length (py ''v2'') \<ge> 2 \<and>
   tokenize (py ''a  B-c'') = []"
proof -
  have m: "py ''v2'' \<in> set (tokenize (py ''Git-Log v2!!''))"
    by (simp add: tokenize_eval)
  from tokenize_git_log_v2 [of "py ''Git-Log v2!!''"] m have "length (py ''v2'') \<ge> 2" by blast
  moreover have "tokenize (py ''a  B-c'') = []" by (simp add: tokenize_eval)
  ultimately show ?thesis using m by simp
qed

text \<open>
  The result the claim gives for its example, \<open>git\<close> and \<open>log\<close> without \<open>v2\<close>, is not
  what \<open>tokenize\<close> returns.
\<close>

theorem tokenize_git_log_counterexample:
  "tokenize (py ''Git-Log v2!!'') \<noteq> [py ''git'', py ''log'']"
  by (simp add: tokenize_eval)

section \<open>Integers, floats and UTF-8 read back\<close>

lemma byte_unat: "n < 256 \<Longrightarrow> unat (of_nat n :: byte) = n"
  by (simp add: unat_of_nat)

lemma length_nat_le: "length (nat_le n v) = n"
  by (induction n arbitrary: v) auto

lemma le_nat_nat_le: "v < 256 ^ n \<Longrightarrow> le_nat (nat_le n v) = v"
proof (induction n arbitrary: v)
  case 0
  then show ?case by simp
next
  case (Suc n)
  from Suc.prems have "v div 256 < 256 ^ n"
    by (simp add: less_mult_imp_div_less mult.commute)
  from Suc.IH [OF this] show ?case by (simp add: byte_unat)
qed

lemma nat_le_numeral:
  "nat_le (numeral k) v = of_nat (v mod 256) # nat_le (pred_numeral k) (v div 256)"
proof -
  have "nat_le (Suc (pred_numeral k)) v = of_nat (v mod 256) # nat_le (pred_numeral k) (v div 256)"
    by simp
  then show ?thesis by (simp only: numeral_eq_Suc [symmetric])
qed

lemma code_point_3: "(c::nat) div 4096 * 4096 + c div 64 mod 64 * 64 + c mod 64 = c"
proof -
  have "c mod (64 * 64) = 64 * (c div 64 mod 64) + c mod 64" by (rule mod_mult2_eq)
  then have "c mod 4096 = c div 64 mod 64 * 64 + c mod 64" by simp
  moreover have "c div 4096 * 4096 + c mod 4096 = c" by (rule div_mult_mod_eq)
  ultimately show ?thesis by simp
qed

lemma code_point_4:
  "(c::nat) div 262144 * 262144 + c div 4096 mod 64 * 4096 + c div 64 mod 64 * 64 + c mod 64 = c"
proof -
  have "c mod (4096 * 64) = 4096 * (c div 4096 mod 64) + c mod 4096" by (rule mod_mult2_eq)
  then have "c mod 262144 = c div 4096 mod 64 * 4096 + c mod 4096" by simp
  moreover have "c mod (64 * 64) = 64 * (c div 64 mod 64) + c mod 64" by (rule mod_mult2_eq)
  then have "c mod 4096 = c div 64 mod 64 * 64 + c mod 64" by simp
  moreover have "c div 262144 * 262144 + c mod 262144 = c" by (rule div_mult_mod_eq)
  ultimately show ?thesis by simp
qed

lemma utf8_decode_lead1:
  assumes "unat b0 < 0x80"
  shows "utf8_decode_at q (b0 # rest) = decoded (unat b0) (utf8_decode_at (q + 1) rest)"
  using assms by simp

lemma utf8_decode_lead2:
  assumes "unat b0 = 0xC0 + h" "unat b1 = 0x80 + l" "2 \<le> h" "h < 32" "l < 64"
  shows "utf8_decode_at q (b0 # b1 # rest) = decoded (h * 64 + l) (utf8_decode_at (q + 2) rest)"
  using assms by (simp add: is_cont_def cp2_def)

lemma utf8_decode_lead3:
  assumes "unat b0 = 0xE0 + h" "unat b1 = 0x80 + m" "unat b2 = 0x80 + l"
    "h < 16" "m < 64" "l < 64" "0x800 \<le> h * 4096 + m * 64 + l"
    "\<not> (0xD800 \<le> h * 4096 + m * 64 + l \<and> h * 4096 + m * 64 + l \<le> 0xDFFF)"
  shows "utf8_decode_at q (b0 # b1 # b2 # rest)
         = decoded (h * 4096 + m * 64 + l) (utf8_decode_at (q + 3) rest)"
  using assms by (simp add: is_cont_def cp3_def)

lemma utf8_decode_lead4:
  assumes "unat b0 = 0xF0 + h" "unat b1 = 0x80 + m" "unat b2 = 0x80 + l" "unat b3 = 0x80 + k"
    "h < 5" "m < 64" "l < 64" "k < 64" "0x10000 \<le> h * 262144 + m * 4096 + l * 64 + k"
    "h * 262144 + m * 4096 + l * 64 + k < 0x110000"
  shows "utf8_decode_at q (b0 # b1 # b2 # b3 # rest)
         = decoded (h * 262144 + m * 4096 + l * 64 + k) (utf8_decode_at (q + 4) rest)"
  using assms by (simp add: is_cont_def cp4_def)

lemma utf8_decode_encode_char:
  assumes "utf8_encode_char c = Some b"
  shows "utf8_decode_at q (b @ rest) = decoded c (utf8_decode_at (q + length b) rest)"
proof -
  consider (one) "c < 0x80" | (two) "0x80 \<le> c" "c < 0x800"
    | (three) "0x800 \<le> c" "c < 0x10000" "\<not> (0xD800 \<le> c \<and> c \<le> 0xDFFF)"
    | (four) "0x10000 \<le> c" "c < 0x110000"
    | (none) "0xD800 \<le> c \<and> c \<le> 0xDFFF \<or> 0x110000 \<le> c"
    by linarith
  then show ?thesis
  proof cases
    case one
    let ?x0 = "of_nat c :: byte"
    from one have b: "b = [?x0]" using assms by (simp add: utf8_encode_char_def)
    from one have u: "unat ?x0 = c" by (intro byte_unat) simp
    with one have "unat ?x0 < 0x80" by simp
    from utf8_decode_lead1 [OF this, of q rest]
    have e: "utf8_decode_at q (?x0 # rest) = decoded c (utf8_decode_at (q + 1) rest)"
      by (simp only: u)
    have a: "b @ rest = ?x0 # rest" and l: "q + length b = q + 1" by (simp_all add: b)
    show ?thesis by (simp only: a l e)
  next
    case two
    let ?x0 = "of_nat (0xC0 + c div 64) :: byte" and ?x1 = "of_nat (0x80 + c mod 64) :: byte"
    from two have b: "b = [?x0, ?x1]" using assms by (simp add: utf8_encode_char_def)
    from two have d: "2 \<le> c div 64" "c div 64 < 32" by arith+
    have m: "c mod 64 < 64" by simp
    from d have u0: "unat ?x0 = 0xC0 + c div 64" by (intro byte_unat) simp
    from m have u1: "unat ?x1 = 0x80 + c mod 64" by (intro byte_unat) simp
    have c: "c div 64 * 64 + c mod 64 = c" by simp
    from utf8_decode_lead2 [OF u0 u1 d m, of q rest]
    have e: "utf8_decode_at q (?x0 # ?x1 # rest) = decoded c (utf8_decode_at (q + 2) rest)"
      by (simp only: c)
    have a: "b @ rest = ?x0 # ?x1 # rest" and l: "q + length b = q + 2" by (simp_all add: b)
    show ?thesis by (simp only: a l e)
  next
    case three
    let ?x0 = "of_nat (0xE0 + c div 4096) :: byte"
      and ?x1 = "of_nat (0x80 + c div 64 mod 64) :: byte"
      and ?x2 = "of_nat (0x80 + c mod 64) :: byte"
    from three have b: "b = [?x0, ?x1, ?x2]"
      using assms by (auto simp: utf8_encode_char_def split: if_splits)
    from three have d: "c div 4096 < 16" by arith
    have m: "c div 64 mod 64 < 64" "c mod 64 < 64" by simp_all
    from d have u0: "unat ?x0 = 0xE0 + c div 4096" by (intro byte_unat) simp
    from m have u1: "unat ?x1 = 0x80 + c div 64 mod 64" by (intro byte_unat) simp
    from m have u2: "unat ?x2 = 0x80 + c mod 64" by (intro byte_unat) simp
    have c: "c div 4096 * 4096 + c div 64 mod 64 * 64 + c mod 64 = c" by (rule code_point_3)
    from three have r: "0x800 \<le> c div 4096 * 4096 + c div 64 mod 64 * 64 + c mod 64"
      "\<not> (0xD800 \<le> c div 4096 * 4096 + c div 64 mod 64 * 64 + c mod 64 \<and>
          c div 4096 * 4096 + c div 64 mod 64 * 64 + c mod 64 \<le> 0xDFFF)"
      by (simp_all only: c) simp_all
    from utf8_decode_lead3 [OF u0 u1 u2 d m r, of q rest]
    have e: "utf8_decode_at q (?x0 # ?x1 # ?x2 # rest) = decoded c (utf8_decode_at (q + 3) rest)"
      by (simp only: c)
    have a: "b @ rest = ?x0 # ?x1 # ?x2 # rest" and l: "q + length b = q + 3"
      by (simp_all add: b)
    show ?thesis by (simp only: a l e)
  next
    case four
    let ?x0 = "of_nat (0xF0 + c div 262144) :: byte"
      and ?x1 = "of_nat (0x80 + c div 4096 mod 64) :: byte"
      and ?x2 = "of_nat (0x80 + c div 64 mod 64) :: byte"
      and ?x3 = "of_nat (0x80 + c mod 64) :: byte"
    from four have b: "b = [?x0, ?x1, ?x2, ?x3]"
      using assms by (simp add: utf8_encode_char_def)
    from four have d: "c div 262144 < 5" by arith
    have m: "c div 4096 mod 64 < 64" "c div 64 mod 64 < 64" "c mod 64 < 64" by simp_all
    from d have u0: "unat ?x0 = 0xF0 + c div 262144" by (intro byte_unat) simp
    from m have u1: "unat ?x1 = 0x80 + c div 4096 mod 64" by (intro byte_unat) simp
    from m have u2: "unat ?x2 = 0x80 + c div 64 mod 64" by (intro byte_unat) simp
    from m have u3: "unat ?x3 = 0x80 + c mod 64" by (intro byte_unat) simp
    have c: "c div 262144 * 262144 + c div 4096 mod 64 * 4096 + c div 64 mod 64 * 64 + c mod 64 = c"
      by (rule code_point_4)
    from four have r:
      "0x10000 \<le> c div 262144 * 262144 + c div 4096 mod 64 * 4096 + c div 64 mod 64 * 64 + c mod 64"
      "c div 262144 * 262144 + c div 4096 mod 64 * 4096 + c div 64 mod 64 * 64 + c mod 64 < 0x110000"
      by (simp_all only: c)
    from utf8_decode_lead4 [OF u0 u1 u2 u3 d m r, of q rest]
    have e: "utf8_decode_at q (?x0 # ?x1 # ?x2 # ?x3 # rest)
             = decoded c (utf8_decode_at (q + 4) rest)"
      by (simp only: c)
    have a: "b @ rest = ?x0 # ?x1 # ?x2 # ?x3 # rest" and l: "q + length b = q + 4"
      by (simp_all add: b)
    show ?thesis by (simp only: a l e)
  next
    case none
    with assms show ?thesis by (auto simp: utf8_encode_char_def split: if_splits)
  qed
qed

lemma utf8_decode_encode_at:
  "utf8_encode_at p s = Inr bs \<Longrightarrow> utf8_decode_at q bs = Inr s"
proof (induction s arbitrary: p q bs)
  case Nil
  then show ?case by simp
next
  case (Cons c cs)
  from Cons.prems obtain b bs' where b: "utf8_encode_char c = Some b"
    and bs': "utf8_encode_at (Suc p) cs = Inr bs'" and bs: "bs = b @ bs'"
    by (auto split: option.splits sum.splits)
  from Cons.IH [OF bs'] have "utf8_decode_at (q + length b) bs' = Inr cs" .
  with utf8_decode_encode_char [OF b, of q bs'] show ?case
    by (simp add: bs decoded_def)
qed

lemma utf8_roundtrip:
  assumes "utf8_encode s = Inr bs"
  shows "utf8_decode bs = Inr s"
proof -
  from assms have "utf8_encode_at 0 s = Inr bs"
    by (simp add: utf8_encode_def split: sum.splits)
  then have "utf8_decode_at 0 bs = Inr s" by (rule utf8_decode_encode_at)
  then show ?thesis by (simp add: utf8_decode_def)
qed

lemma length_pack_f32s: "pack_f32s pk xs = Inr bs \<Longrightarrow> length bs = 4 * length xs"
proof (induction xs arbitrary: bs)
  case Nil
  then show ?case by simp
next
  case (Cons x xs)
  from Cons.prems obtain w bs' where "pk x = Some w" "pack_f32s pk xs = Inr bs'"
    "bs = nat_le 4 (unat w) @ bs'"
    by (auto split: option.splits sum.splits)
  with Cons.IH [of bs'] show ?case by (simp add: length_nat_le)
qed

lemma word32_of_bytes: "of_nat (le_nat (nat_le 4 (unat (w :: 32 word)))) = w"
proof -
  have "unat w < 2 ^ 32" using unsigned_less [of w] by simp
  then have "unat w < 256 ^ 4" by simp
  then have "le_nat (nat_le 4 (unat w)) = unat w" by (rule le_nat_nat_le)
  then show ?thesis by simp
qed

lemma unpack_pack_f32s:
  assumes "pack_f32s pk xs = Inr bs"
  shows "unpack_f32s up (length xs) (bs @ rest)
         = map (\<lambda>x. case pk x of None \<Rightarrow> x | Some w \<Rightarrow> up w) xs"
  using assms
proof (induction xs arbitrary: bs)
  case Nil
  then show ?case by simp
next
  case (Cons x xs)
  from Cons.prems obtain w bs' where w: "pk x = Some w" and bs': "pack_f32s pk xs = Inr bs'"
    and bs: "bs = nat_le 4 (unat w) @ bs'"
    by (auto split: option.splits sum.splits)
  from Cons.IH [OF bs']
  have ih: "unpack_f32s up (length xs) (bs' @ rest)
            = map (\<lambda>x. case pk x of None \<Rightarrow> x | Some w \<Rightarrow> up w) xs" .
  have t: "take 4 (bs @ rest) = nat_le 4 (unat w)" and d: "drop 4 (bs @ rest) = bs' @ rest"
    by (simp_all add: bs length_nat_le)
  have "unpack_f32s up (Suc (length xs)) (bs @ rest)
        = up (of_nat (le_nat (take 4 (bs @ rest)))) # unpack_f32s up (length xs) (drop 4 (bs @ rest))"
    by (simp only: unpack_f32s.simps)
  also have "\<dots> = up w # map (\<lambda>x. case pk x of None \<Rightarrow> x | Some w \<Rightarrow> up w) xs"
    by (simp only: t d ih word32_of_bytes)
  finally show ?case by (simp add: w)
qed

section \<open>The store written and read back\<close>

lemma pack_f32s_total:
  "\<forall>x \<in> set xs. pk x \<noteq> None \<Longrightarrow> \<exists>bs. pack_f32s pk xs = Inr bs"
  by (induction xs) (auto split: option.splits sum.splits)

lemma dict_set_new: "k \<notin> fst ` set d \<Longrightarrow> dict_set d k v = d @ [(k, v)]"
  by (induction d) auto

text \<open>The store built by inserting the entries \<open>es\<close> one after the other.\<close>

lemma insert_distinct:
  "distinct (map fst (acc @ es)) \<Longrightarrow> foldl (\<lambda>d (w, v). dict_set d w v) acc es = acc @ es"
proof (induction es arbitrary: acc)
  case Nil
  then show ?case by simp
next
  case (Cons e es)
  obtain w v where e: "e = (w, v)" by (cases e)
  from Cons.prems have "w \<notin> fst ` set acc" by (auto simp: e)
  then have s: "dict_set acc w v = acc @ [(w, v)]" by (rule dict_set_new)
  from Cons.prems have "distinct (map fst ((acc @ [(w, v)]) @ es))" by (simp add: e)
  from Cons.IH [OF this] show ?case by (simp add: e s)
qed

lemma pack_unpack_uint:
  "v < 256 ^ n \<Longrightarrow> pack_uint n v = Inr (nat_le n v) \<and> unpack_uint n (nat_le n v) = Inr v"
  by (simp add: pack_uint_def unpack_uint_def length_nat_le le_nat_nat_le)

lemma pack_unpack_floats:
  assumes len: "length v = VECTOR_DIM"
    and pk: "\<forall>x \<in> set v. to_f32 fl x \<noteq> None"
  shows "\<exists>vb. pack_floats fl v = Inr vb \<and> length vb = VECTOR_DIM * 4 \<and>
              unpack_floats fl vb = Inr (map (round_f32 fl) v)"
proof -
  from pack_f32s_total [OF pk] obtain vb where vb: "pack_f32s (to_f32 fl) v = Inr vb" ..
  from length_pack_f32s [OF vb] len have l: "length vb = VECTOR_DIM * 4" by simp
  from unpack_pack_f32s [OF vb, of "of_f32 fl" "[]"] len
  have "unpack_f32s (of_f32 fl) VECTOR_DIM vb = map (round_f32 fl) v"
    by (simp add: round_f32_def)
  with l vb len show ?thesis by (simp add: pack_floats_def unpack_floats_def)
qed

lemma load_save_entries:
  assumes "\<forall>e \<in> set es. storable fl e"
  shows "\<exists>bs. save_entries fl es = Inr bs \<and>
           (\<forall>acc rest. load_entries fl (length es) (bs @ rest) acc
                        = Inr (foldl (\<lambda>d (w, v). dict_set d w v) acc (rounded_store fl es)))"
  using assms
proof (induction es)
  case Nil
  then show ?case by (simp add: rounded_store_def)
next
  case (Cons e es)
  obtain w v where e: "e = (w, v)" by (cases e)
  from Cons.prems have st: "storable fl (w, v)" by (simp add: e)
  then obtain wb where wb: "utf8_encode w = Inr wb" and wl: "length wb \<le> 65535"
    by (auto simp: storable_def)
  from wl have "length wb < 256 ^ 2" by simp
  from pack_unpack_uint [OF this]
  have pl: "pack_uint 2 (length wb) = Inr (nat_le 2 (length wb))"
    and ul: "unpack_uint 2 (nat_le 2 (length wb)) = Inr (length wb)" by simp_all
  from st have "length v = VECTOR_DIM" "\<forall>x \<in> set v. to_f32 fl x \<noteq> None"
    by (simp_all add: storable_def)
  from pack_unpack_floats [OF this] obtain vb where pv: "pack_floats fl v = Inr vb"
    and lv: "length vb = VECTOR_DIM * 4"
    and uv: "unpack_floats fl vb = Inr (map (round_f32 fl) v)" by blast
  from Cons.prems have "\<forall>e \<in> set es. storable fl e" by simp
  from Cons.IH [OF this] obtain bs where sv: "save_entries fl es = Inr bs"
    and ld: "\<And>acc rest. load_entries fl (length es) (bs @ rest) acc
                        = Inr (foldl (\<lambda>d (w, v). dict_set d w v) acc (rounded_store fl es))"
    by blast
  let ?lb = "nat_le 2 (length wb)"
  have s: "save_entries fl (e # es) = Inr (?lb @ wb @ vb @ bs)"
    by (simp add: e wb pl pv sv)
  have "load_entries fl (length (e # es)) ((?lb @ wb @ vb @ bs) @ rest) acc
        = Inr (foldl (\<lambda>d (w, v). dict_set d w v) acc (rounded_store fl (e # es)))" for acc rest
  proof -
    let ?f = "(?lb @ wb @ vb @ bs) @ rest"
    have t2: "take 2 ?f = ?lb" and d2: "drop 2 ?f = wb @ vb @ bs @ rest"
      by (simp_all add: length_nat_le)
    have tw: "take (length wb) (wb @ vb @ bs @ rest) = wb"
      and dw: "drop (length wb) (wb @ vb @ bs @ rest) = vb @ bs @ rest" by simp_all
    have tv: "take (VECTOR_DIM * 4) (vb @ bs @ rest) = vb"
      and dv: "drop (VECTOR_DIM * 4) (vb @ bs @ rest) = bs @ rest" by (simp_all add: lv)
    have "load_entries fl (Suc (length es)) ?f acc
          = load_entries fl (length es) (bs @ rest) (dict_set acc w (map (round_f32 fl) v))"
      by (simp only: load_entries.simps t2 d2 ul tw dw tv dv uv utf8_roundtrip [OF wb]
            sum.case)
    moreover have "rounded_store fl (e # es) = (w, map (round_f32 fl) v) # rounded_store fl es"
      by (simp add: rounded_store_def e)
    ultimately show ?thesis by (simp add: ld)
  qed
  with s show ?case by blast
qed

lemma rounded_store_keys: "map fst (rounded_store fl d) = map fst d"
  by (induction d) (auto simp: rounded_store_def)

lemma rounded_store_single:
  "\<forall>v \<in> set (map snd d). \<forall>x \<in> set v. single_precision fl x \<Longrightarrow> rounded_store fl d = d"
proof (induction d)
  case Nil
  then show ?case by (simp add: rounded_store_def)
next
  case (Cons e d)
  obtain w v where e: "e = (w, v)" by (cases e)
  from Cons.prems have "\<forall>x \<in> set v. round_f32 fl x = x"
    by (auto simp: e single_precision_def round_f32_def)
  then have "map (round_f32 fl) v = v" by (simp add: map_idI)
  moreover from Cons have "rounded_store fl d = d" by simp
  ultimately show ?case by (simp add: rounded_store_def e)
qed

lemma load_save:
  assumes keys: "distinct (map fst store)"
    and ents: "\<forall>e \<in> set store. storable fl e"
    and size: "length store < 2 ^ 32"
  shows "\<exists>bytes. save_binary_format fl store = Inr bytes \<and>
                   load_glove_binary fl bytes = Inr (rounded_store fl store)"
proof -
  from load_save_entries [OF ents] obtain bs where sv: "save_entries fl store = Inr bs"
    and ld: "\<And>acc rest. load_entries fl (length store) (bs @ rest) acc
                = Inr (foldl (\<lambda>d (w, v). dict_set d w v) acc (rounded_store fl store))"
    by blast
  from size have "length store < 256 ^ 4" by simp
  from pack_unpack_uint [OF this]
  have ph: "pack_uint 4 (length store) = Inr (nat_le 4 (length store))"
    and uh: "unpack_uint 4 (nat_le 4 (length store)) = Inr (length store)" by simp_all
  let ?h = "nat_le 4 (length store)"
  have s: "save_binary_format fl store = Inr (?h @ bs)"
    by (simp add: save_binary_format_def ph sv)
  have t: "take 4 (?h @ bs) = ?h" and d: "drop 4 (?h @ bs) = bs" by (simp_all add: length_nat_le)
  from ld [of "[]" "[]"]
  have "load_entries fl (length store) bs []
        = Inr (foldl (\<lambda>d (w, v). dict_set d w v) [] (rounded_store fl store))"
    by simp
  also from keys have "foldl (\<lambda>d (w, v). dict_set d w v) [] (rounded_store fl store)
                       = rounded_store fl store"
    using insert_distinct [of "[]" "rounded_store fl store"] by (simp add: rounded_store_keys)
  finally have "load_glove_binary fl (?h @ bs) = Inr (rounded_store fl store)"
    by (simp only: load_glove_binary_def t d uh sum.case)
  with s show ?thesis by blast
qed

lemma load_save_storable:
  assumes "vector_store store"
    and "\<forall>w \<in> set (map fst store). \<exists>bs. utf8_encode w = Inr bs \<and> length bs \<le> 65535"
    and "\<forall>v \<in> set (map snd store). \<forall>x \<in> set v. to_f32 fl x \<noteq> None"
  shows "\<forall>e \<in> set store. storable fl e"
proof
  fix e assume e: "e \<in> set store"
  then have "fst e \<in> set (map fst store)" "snd e \<in> set (map snd store)" by simp_all
  with assms show "storable fl e"
    unfolding storable_def vector_store_def by blast
qed

lemma pack_f32s_replicate:
  "pk x = Some w \<Longrightarrow> pack_f32s pk (replicate n x) = Inr (concat (replicate n (nat_le 4 (unat w))))"
  by (induction n) simp_all

lemma save_the_tenth:
  "save_binary_format rounding_ops [(py ''the'', replicate 100 (3602879701896397 / 36028797018963968))]
   = Inr ([1, 0, 0, 0, 3, 0, 0x74, 0x68, 0x65] @ concat (replicate 100 [0xCD, 0xCC, 0xCC, 0x3D]))"
proof -
  have p: "to_f32 rounding_ops (3602879701896397 / 36028797018963968) = Some 0x3DCCCCCD"
    by (simp add: rounding_ops_def)
  have b: "nat_le 4 (unat (0x3DCCCCCD :: 32 word)) = [0xCD, 0xCC, 0xCC, 0x3D]"
    by (simp add: nat_le_numeral)
  have "pack_f32s (to_f32 rounding_ops) (replicate 100 (3602879701896397 / 36028797018963968))
        = Inr (concat (replicate 100 [0xCD, 0xCC, 0xCC, 0x3D]))"
    using pack_f32s_replicate [where pk = "to_f32 rounding_ops" and n = 100, OF p]
    by (simp only: b)
  then have v: "pack_floats rounding_ops (replicate 100 (3602879701896397 / 36028797018963968))
           = Inr (concat (replicate 100 [0xCD, 0xCC, 0xCC, 0x3D]))"
    by (simp add: pack_floats_def VECTOR_DIM_def)
  have w: "utf8_encode (py ''the'') = Inr [0x74, 0x68, 0x65]"
    by (simp add: utf8_encode_def utf8_encode_char_def py_def)
  have "pack_uint 2 3 = Inr [3, 0]" by (simp add: pack_uint_def nat_le_numeral)
  then have l: "pack_uint 2 (Suc (Suc (Suc 0))) = Inr [3, 0]" by (simp only: numeral_3_eq_3)
  have h: "pack_uint 4 (Suc 0) = Inr [1, 0, 0, 0]" by (simp add: pack_uint_def nat_le_numeral)
  show ?thesis by (simp add: save_binary_format_def v w l h)
qed

text \<open>
  Claim C2. A store of the data model (distinct words, vectors of 100 components) of
  fewer than \<open>2 ^ 32\<close> words, each with a UTF-8 encoding of at most 65535 bytes, and
  with components that \<open>struct\<close> packs, is written by \<open>save_binary_format\<close>, and
  \<open>load_glove_binary\<close> reads the bytes written back to the rounded store: the same
  words in the same order, each with its vector rounded, component by component, to
  what the format \<open>f\<close> reads back from what it wrote. It reads back the store itself
  when every component is a single-precision value. The theorem holds for every
  instance of the floating-point operations.
\<close>

theorem save_load_rounded:
  assumes "vector_store store" and "length store < 2 ^ 32"
    and "\<forall>w \<in> set (map fst store). \<exists>bs. utf8_encode w = Inr bs \<and> length bs \<le> 65535"
    and "\<forall>v \<in> set (map snd store). \<forall>x \<in> set v. to_f32 fl x \<noteq> None"
  shows "\<exists>bytes. save_binary_format fl store = Inr bytes \<and>
           load_glove_binary fl bytes = Inr (rounded_store fl store) \<and>
           map fst (rounded_store fl store) = map fst store \<and>
           map snd (rounded_store fl store) = map (map (round_f32 fl)) (map snd store) \<and>
           ((\<forall>v \<in> set (map snd store). \<forall>x \<in> set v. single_precision fl x) \<longrightarrow>
              load_glove_binary fl bytes = Inr store)"
proof -
  from assms(1) have keys: "distinct (map fst store)" by (simp add: vector_store_def)
  from load_save [OF keys load_save_storable [OF assms(1,3,4)] assms(2)]
  obtain bytes where s: "save_binary_format fl store = Inr bytes"
    and l: "load_glove_binary fl bytes = Inr (rounded_store fl store)" by blast
  have v: "map snd (rounded_store fl store) = map (map (round_f32 fl)) (map snd store)"
    by (induction store) (auto simp: rounded_store_def)
  from s l v rounded_store_keys [of fl store] rounded_store_single [of store fl]
  show ?thesis by auto
qed

text \<open>
  The theorem at a store of two words, one of them outside ASCII, with the double
  nearest to \<open>0.1\<close> as the components of the first vector: they are read back as
  \<open>0.10000000149011612\<close>.
\<close>

theorem save_load_rounded_witness:
  "vector_store
     [(py ''the'', replicate 100 (3602879701896397 / 36028797018963968 :: rat)),
      ([0xE9], replicate 100 (1 / 2))] \<and>
   (\<exists>bytes.
      save_binary_format rounding_ops
        [(py ''the'', replicate 100 (3602879701896397 / 36028797018963968)),
         ([0xE9], replicate 100 (1 / 2))] = Inr bytes \<and>
      load_glove_binary rounding_ops bytes
        = Inr [(py ''the'', replicate 100 (13421773 / 134217728)),
               ([0xE9], replicate 100 (1 / 2))])"
proof -
  let ?W = "[(py ''the'', replicate 100 (3602879701896397 / 36028797018963968 :: rat)),
             ([0xE9], replicate 100 (1 / 2))]"
  have vs: "vector_store ?W" by (simp add: vector_store_def VECTOR_DIM_def py_def)
  have sz: "length ?W < 2 ^ 32" by simp
  have ws: "\<forall>w \<in> set (map fst ?W). \<exists>bs. utf8_encode w = Inr bs \<and> length bs \<le> 65535"
    by (simp add: utf8_encode_def utf8_encode_char_def py_def)
  have pk: "\<forall>v \<in> set (map snd ?W). \<forall>x \<in> set v. to_f32 rounding_ops x \<noteq> None"
    by (simp add: rounding_ops_def exact_ops_def)
  have r: "rounded_store rounding_ops ?W
           = [(py ''the'', replicate 100 (13421773 / 134217728)), ([0xE9], replicate 100 (1 / 2))]"
    by (simp add: rounded_store_def round_f32_def rounding_ops_def exact_ops_def)
  from save_load_rounded [OF vs sz ws pk] vs show ?thesis unfolding r by blast
qed

text \<open>
  The claim as the specification words it, the same vectors, does not hold of a store
  that \<open>load_glove_vectors\<close> builds: \<open>float\<close> gives doubles. The store with the one
  word \<open>the\<close> and the vector of 100 components \<open>float('0.1')\<close> is written to 413
  bytes, and these are read back to a store that is not the one written.
\<close>

theorem save_load_tenth_counterexample:
  "float_of rounding_ops (py ''0.1'') = Some (3602879701896397 / 36028797018963968) \<and>
   utf8_encode (py ''the'') = Inr [0x74, 0x68, 0x65] \<and>
   save_binary_format rounding_ops
     [(py ''the'', replicate 100 (3602879701896397 / 36028797018963968))]
     = Inr ([1, 0, 0, 0, 3, 0, 0x74, 0x68, 0x65] @ concat (replicate 100 [0xCD, 0xCC, 0xCC, 0x3D])) \<and>
   load_glove_binary rounding_ops
     ([1, 0, 0, 0, 3, 0, 0x74, 0x68, 0x65] @ concat (replicate 100 [0xCD, 0xCC, 0xCC, 0x3D]))
     = Inr [(py ''the'', replicate 100 (13421773 / 134217728))] \<and>
   [(py ''the'', replicate 100 (13421773 / 134217728 :: rat))]
     \<noteq> [(py ''the'', replicate 100 (3602879701896397 / 36028797018963968))]"
proof -
  let ?W = "[(py ''the'', replicate 100 (3602879701896397 / 36028797018963968 :: rat))]"
  have f: "float_of rounding_ops (py ''0.1'') = Some (3602879701896397 / 36028797018963968)"
    by (simp add: rounding_ops_def)
  have w: "utf8_encode (py ''the'') = Inr [0x74, 0x68, 0x65]"
    by (simp add: utf8_encode_def utf8_encode_char_def py_def)
  have keys: "distinct (map fst ?W)" by simp
  have ents: "\<forall>e \<in> set ?W. storable rounding_ops e"
    by (simp add: storable_def w VECTOR_DIM_def rounding_ops_def)
  have r: "rounded_store rounding_ops ?W = [(py ''the'', replicate 100 (13421773 / 134217728))]"
    by (simp add: rounded_store_def round_f32_def rounding_ops_def)
  from load_save [OF keys ents] save_the_tenth
  have l: "load_glove_binary rounding_ops
             ([1, 0, 0, 0, 3, 0, 0x74, 0x68, 0x65] @ concat (replicate 100 [0xCD, 0xCC, 0xCC, 0x3D]))
           = Inr [(py ''the'', replicate 100 (13421773 / 134217728))]"
    unfolding r by auto
  have n: "[(py ''the'', replicate 100 (13421773 / 134217728 :: rat))]
           \<noteq> [(py ''the'', replicate 100 (3602879701896397 / 36028797018963968))]"
    by simp
  from f w save_the_tenth l n show ?thesis by blast
qed

section \<open>Words too long for the length field\<close>

lemma save_entries_long_word:
  assumes "(w, v) \<in> set es" "utf8_encode w = Inr bs" "length bs > 65535"
  shows "\<exists>e. save_entries fl es = Inl e"
  using assms(1)
proof (induction es)
  case Nil
  then show ?case by simp
next
  case (Cons a es)
  obtain w' v' where a: "a = (w', v')" by (cases a)
  show ?case
  proof (cases "a = (w, v)")
    case True
    from assms(3) have "\<not> length bs < 256 ^ 2" by simp
    then have "pack_uint 2 (length bs) = Inl (StructError OutOfRange)" by (simp add: pack_uint_def)
    with True assms(2) show ?thesis by simp
  next
    case False
    with Cons.prems have "(w, v) \<in> set es" by simp
    from Cons.IH [OF this] obtain e where "save_entries fl es = Inl e" ..
    then show ?thesis by (simp add: a split: sum.splits)
  qed
qed

lemma utf8_encode_at_ascii:
  "\<forall>c \<in> set s. c < 0x80 \<Longrightarrow> utf8_encode_at p s = Inr (map of_nat s)"
  by (induction s arbitrary: p) (simp_all add: utf8_encode_char_def)

text \<open>
  Claim C9. If the UTF-8 encoding of some word of the store has more than 65535 bytes,
  \<open>save_binary_format\<close> raises and returns no bytes; when the entry of that word is
  reached, the exception is the \<open>struct.error\<close> of the length field, whose format has
  no such number.
\<close>

theorem save_long_word_fails:
  assumes "(w, v) \<in> set store" "utf8_encode w = Inr bs" "length bs > 65535"
  shows "(\<exists>e. save_binary_format fl store = Inl e) \<and>
         (\<forall>rest. save_entries fl ((w, v) # rest) = Inl (StructError OutOfRange))"
proof
  from save_entries_long_word [OF assms] obtain e where "save_entries fl store = Inl e" ..
  then show "\<exists>e. save_binary_format fl store = Inl e"
    by (simp add: save_binary_format_def split: sum.splits)
  from assms(3) have "\<not> length bs < 256 ^ 2" by simp
  then have "pack_uint 2 (length bs) = Inl (StructError OutOfRange)" by (simp add: pack_uint_def)
  with assms(2) show "\<forall>rest. save_entries fl ((w, v) # rest) = Inl (StructError OutOfRange)"
    by simp
qed

theorem save_long_word_fails_witness:
  "(\<exists>e. save_binary_format exact_ops [(replicate 65536 0x61, replicate 100 0)] = Inl e) \<and>
   save_entries exact_ops [(replicate 65536 0x61, replicate 100 0)] = Inl (StructError OutOfRange)"
proof -
  have "utf8_encode (replicate 65536 0x61) = Inr (map of_nat (replicate 65536 0x61))"
    by (simp add: utf8_encode_def utf8_encode_at_ascii)
  moreover have "length (map of_nat (replicate 65536 (0x61::nat)) :: py_bytes) > 65535" by simp
  moreover have "(replicate 65536 0x61, replicate 100 0)
                 \<in> set [(replicate 65536 0x61, replicate 100 (0::rat))]" by simp
  ultimately show ?thesis
    using save_long_word_fails [of "replicate 65536 0x61" "replicate 100 0"
        "[(replicate 65536 0x61, replicate 100 0)]" "map of_nat (replicate 65536 0x61)" exact_ops]
    by blast
qed

section \<open>Files that cannot be loaded\<close>

lemma load_entries_short_len:
  "length f < 2 \<Longrightarrow> load_entries fl (Suc n) f acc = Inl (StructError (BufferSize 2))"
  by (simp add: unpack_uint_def)

lemma load_entries_short_record:
  assumes "2 \<le> length f" "length f < 2 + le_nat (take 2 f) + VECTOR_DIM * 4"
  shows "load_entries fl (Suc n) f acc = Inl (StructError (BufferSize (VECTOR_DIM * 4))) \<or>
         (\<exists>p. load_entries fl (Suc n) f acc = Inl (UnicodeDecodeError p))"
proof -
  let ?wl = "le_nat (take 2 f)"
  from assms(1) have u: "unpack_uint 2 (take 2 f) = Inr ?wl" by (simp add: unpack_uint_def)
  from assms have "length (take (VECTOR_DIM * 4) (drop ?wl (drop 2 f))) \<noteq> VECTOR_DIM * 4"
    by (simp add: VECTOR_DIM_def)
  then have v: "unpack_floats fl (take (VECTOR_DIM * 4) (drop ?wl (drop 2 f)))
                = Inl (StructError (BufferSize (VECTOR_DIM * 4)))"
    by (simp only: unpack_floats_def if_False)
  show ?thesis
  proof (cases "utf8_decode (take ?wl (drop 2 f))")
    case (Inl e)
    then have "\<exists>p. e = UnicodeDecodeError p"
      by (auto simp: utf8_decode_def split: sum.splits)
    with Inl u show ?thesis by auto
  next
    case (Inr word)
    with u v show ?thesis by simp
  qed
qed


lemma load_entries_bad_word:
  assumes "2 \<le> length f" "utf8_decode_at 0 (take (le_nat (take 2 f)) (drop 2 f)) = Inl p"
  shows "load_entries fl (Suc n) f acc = Inl (UnicodeDecodeError p)"
  using assms by (simp add: unpack_uint_def utf8_decode_def)

text \<open>Reading one record of a file cut after the end of that record.\<close>

lemma load_entries_take:
  assumes "2 + le_nat (take 2 f) + VECTOR_DIM * 4 \<le> j"
  shows "load_entries fl (Suc n) (take j f) acc =
         (case unpack_uint 2 (take 2 f) of
            Inl e \<Rightarrow> Inl e
          | Inr word_len \<Rightarrow>
              (case utf8_decode (take word_len (drop 2 f)) of
                 Inl e \<Rightarrow> Inl e
               | Inr word \<Rightarrow>
                   (case unpack_floats fl (take (VECTOR_DIM * 4) (drop word_len (drop 2 f))) of
                      Inl e \<Rightarrow> Inl e
                    | Inr vector \<Rightarrow>
                        load_entries fl n
                          (take (j - (2 + le_nat (take 2 f) + VECTOR_DIM * 4))
                             (drop (VECTOR_DIM * 4) (drop word_len (drop 2 f))))
                          (dict_set acc word vector))))"
proof -
  let ?wl = "le_nat (take 2 f)"
  from assms have t2: "take 2 (take j f) = take 2 f" by (simp add: min_def)
  show ?thesis
  proof (cases "unpack_uint 2 (take 2 f)")
    case (Inl e)
    then show ?thesis by (simp only: load_entries.simps t2 sum.case)
  next
    case (Inr wl)
    then have wl: "wl = ?wl" by (simp add: unpack_uint_def split: if_splits)
    from assms have tw: "take ?wl (drop 2 (take j f)) = take ?wl (drop 2 f)"
      by (simp add: drop_take min_def)
    from assms have tv: "take (VECTOR_DIM * 4) (drop ?wl (drop 2 (take j f)))
                         = take (VECTOR_DIM * 4) (drop ?wl (drop 2 f))"
      by (simp add: drop_take min_def)
    from assms have dv: "drop (VECTOR_DIM * 4) (drop ?wl (drop 2 (take j f)))
                         = take (j - (2 + ?wl + VECTOR_DIM * 4))
                             (drop (VECTOR_DIM * 4) (drop ?wl (drop 2 f)))"
      by (simp add: drop_take add.commute add.left_commute)
    show ?thesis
      by (simp only: load_entries.simps t2 Inr sum.case tw [folded wl] tv [folded wl]
            dv [folded wl]) (simp only: wl)
  qed
qed


lemma load_entries_truncated:
  "load_entries fl n f acc = Inr store \<Longrightarrow>
   \<exists>k \<le> length f. load_entries fl n (take k f) acc = Inr store \<and>
     (\<forall>m < k. \<exists>e. load_entries fl n (take m f) acc = Inl e)"
proof (induction n arbitrary: f acc)
  case 0
  then have "load_entries fl 0 (take 0 f) acc = Inr store" by simp
  then show ?case by blast
next
  case (Suc n)
  let ?wl = "le_nat (take 2 f)"
  let ?r = "2 + ?wl + VECTOR_DIM * 4"
  let ?rest = "drop (VECTOR_DIM * 4) (drop ?wl (drop 2 f))"
  from Suc.prems have l2: "2 \<le> length f" and u: "unpack_uint 2 (take 2 f) = Inr ?wl"
    by (auto simp: unpack_uint_def split: if_splits sum.splits)
  from Suc.prems u obtain word where word: "utf8_decode (take ?wl (drop 2 f)) = Inr word"
    by (auto split: sum.splits)
  from Suc.prems u word obtain vector
    where vec: "unpack_floats fl (take (VECTOR_DIM * 4) (drop ?wl (drop 2 f))) = Inr vector"
    by (auto split: sum.splits)
  from Suc.prems u word vec
  have rec: "load_entries fl n ?rest (dict_set acc word vector) = Inr store" by simp
  from vec have "length (take (VECTOR_DIM * 4) (drop ?wl (drop 2 f))) = VECTOR_DIM * 4"
    by (simp add: unpack_floats_def split: if_splits)
  then have lr: "?r \<le> length f" by (simp add: VECTOR_DIM_def)
  have lrest: "length ?rest = length f - ?r" by simp
  from Suc.IH [OF rec] obtain k' where k': "k' \<le> length ?rest"
    and ok: "load_entries fl n (take k' ?rest) (dict_set acc word vector) = Inr store"
    and bad: "\<And>m. m < k' \<Longrightarrow> \<exists>e. load_entries fl n (take m ?rest) (dict_set acc word vector) = Inl e"
    by blast
  have step: "load_entries fl (Suc n) (take j f) acc
              = load_entries fl n (take (j - ?r) ?rest) (dict_set acc word vector)"
    if "?r \<le> j" for j
    using load_entries_take [OF that, of fl n acc] by (simp only: u word vec sum.case)
  have "?r + k' \<le> length f" using k' lr lrest by simp
  moreover have "load_entries fl (Suc n) (take (?r + k') f) acc = Inr store"
    using step [of "?r + k'"] ok by simp
  moreover have "\<exists>e. load_entries fl (Suc n) (take m f) acc = Inl e" if m: "m < ?r + k'" for m
  proof -
    consider (a) "m < 2" | (b) "2 \<le> m" "m < ?r" | (c) "?r \<le> m" by linarith
    then show ?thesis
    proof cases
      case a
      then have "length (take m f) < 2" by simp
      from load_entries_short_len [OF this] show ?thesis by blast
    next
      case b
      with l2 have t: "take 2 (take m f) = take 2 f" by (simp add: min_def)
      from b lr have "2 \<le> length (take m f)"
        "length (take m f) < 2 + le_nat (take 2 (take m f)) + VECTOR_DIM * 4"
        by (simp_all only: t) simp_all
      from load_entries_short_record [OF this] show ?thesis by blast
    next
      case c
      with m have "m - ?r < k'" by simp
      from bad [OF this] step [OF c] show ?thesis by simp
    qed
  qed
  ultimately show ?case by blast
qed

lemma load_glove_binary_truncated:
  assumes "load_glove_binary fl f = Inr store"
  shows "\<exists>k \<le> length f. load_glove_binary fl (take k f) = Inr store \<and>
           (\<forall>m < k. \<exists>e. load_glove_binary fl (take m f) = Inl e)"
proof -
  let ?n = "le_nat (take 4 f)"
  from assms have l4: "4 \<le> length f" and u: "unpack_uint 4 (take 4 f) = Inr ?n"
    by (auto simp: load_glove_binary_def unpack_uint_def split: if_splits sum.splits)
  from assms u have "load_entries fl ?n (drop 4 f) [] = Inr store"
    by (simp add: load_glove_binary_def)
  from load_entries_truncated [OF this] obtain k' where k': "k' \<le> length (drop 4 f)"
    and ok: "load_entries fl ?n (take k' (drop 4 f)) [] = Inr store"
    and bad: "\<And>m. m < k' \<Longrightarrow> \<exists>e. load_entries fl ?n (take m (drop 4 f)) [] = Inl e"
    by blast
  have step: "load_glove_binary fl (take j f) = load_entries fl ?n (take (j - 4) (drop 4 f)) []"
    if "4 \<le> j" for j
  proof -
    from that have "take 4 (take j f) = take 4 f" by (simp add: min_def)
    then show ?thesis by (simp only: load_glove_binary_def u sum.case drop_take)
  qed
  have "4 + k' \<le> length f" using k' l4 by simp
  moreover have "load_glove_binary fl (take (4 + k') f) = Inr store"
    using step [of "4 + k'"] ok by simp
  moreover have "\<exists>e. load_glove_binary fl (take m f) = Inl e" if m: "m < 4 + k'" for m
  proof (cases "m < 4")
    case True
    then have "length (take 4 (take m f)) \<noteq> 4" by simp
    then show ?thesis by (simp add: load_glove_binary_def unpack_uint_def)
  next
    case False
    with m have "m - 4 < k'" by simp
    from bad [OF this] step [of m] False show ?thesis by simp
  qed
  ultimately show ?thesis by blast
qed

lemma le_nat_zeros: "le_nat (replicate n 0) = 0"
  by (induction n) auto

lemma unpack_f32s_zeros: "unpack_f32s up k (replicate (4 * k) 0) = replicate k (up 0)"
proof (induction k)
  case 0
  then show ?case by simp
next
  case (Suc k)
  have t: "take 4 (replicate (4 * Suc k) (0::byte)) = replicate 4 0"
    and d: "drop 4 (replicate (4 * Suc k) (0::byte)) = replicate (4 * k) 0" by simp_all
  show ?case by (simp only: unpack_f32s.simps t d Suc le_nat_zeros) simp
qed

text \<open>Reading one complete record.\<close>

lemma load_entries_record:
  assumes "utf8_decode wb = Inr w" "length wb < 65536" "length vb = VECTOR_DIM * 4"
  shows "load_entries fl (Suc n) (nat_le 2 (length wb) @ wb @ vb @ rest) acc
         = load_entries fl n rest (dict_set acc w (unpack_f32s (of_f32 fl) VECTOR_DIM vb))"
proof -
  let ?lb = "nat_le 2 (length wb)"
  let ?f = "?lb @ wb @ vb @ rest"
  from assms(2) have "length wb < 256 ^ 2" by simp
  from pack_unpack_uint [OF this] have ul: "unpack_uint 2 ?lb = Inr (length wb)" by simp
  have t2: "take 2 ?f = ?lb" and d2: "drop 2 ?f = wb @ vb @ rest"
    by (simp_all add: length_nat_le)
  have tw: "take (length wb) (wb @ vb @ rest) = wb"
    and dw: "drop (length wb) (wb @ vb @ rest) = vb @ rest" by simp_all
  have tv: "take (VECTOR_DIM * 4) (vb @ rest) = vb"
    and dv: "drop (VECTOR_DIM * 4) (vb @ rest) = rest" by (simp_all add: assms(3))
  have uv: "unpack_floats fl vb = Inr (unpack_f32s (of_f32 fl) VECTOR_DIM vb)"
    by (simp add: unpack_floats_def assms(3))
  show ?thesis
    by (simp only: load_entries.simps t2 d2 ul tw dw tv dv uv assms(1) sum.case)
qed

lemma load_glove_binary_header:
  "n < 2 ^ 32 \<Longrightarrow> load_glove_binary fl (nat_le 4 n @ body) = load_entries fl n body []"
proof -
  assume "n < 2 ^ 32"
  then have "n < 256 ^ 4" by simp
  from pack_unpack_uint [OF this] have u: "unpack_uint 4 (nat_le 4 n) = Inr n" by simp
  have t: "take 4 (nat_le 4 n @ body) = nat_le 4 n" and d: "drop 4 (nat_le 4 n @ body) = body"
    by (simp_all add: length_nat_le)
  show ?thesis by (simp only: load_glove_binary_def t d u sum.case)
qed

lemma utf8_decode_a: "utf8_decode [0x61] = Inr [0x61]"
  by (simp add: utf8_decode_def decoded_def)

lemma load_entries_record_a: "load_entries exact_ops (Suc n) ([1, 0, 0x61] @ replicate 400 0 @ rest) acc
    = load_entries exact_ops n rest (dict_set acc [0x61] (replicate 100 0))"
proof -
  have r: "load_entries exact_ops (Suc n)
             (nat_le 2 (length [0x61 :: byte]) @ [0x61] @ replicate 400 0 @ rest) acc
           = load_entries exact_ops n rest
               (dict_set acc [0x61] (unpack_f32s (of_f32 exact_ops) VECTOR_DIM (replicate 400 0)))"
    by (rule load_entries_record) (simp_all add: utf8_decode_a VECTOR_DIM_def)
  have l: "nat_le 2 (length [0x61 :: byte]) @ [0x61] @ replicate 400 0 @ rest
           = [1, 0, 0x61] @ replicate 400 0 @ rest"
    by (simp add: nat_le_numeral)
  have v: "unpack_f32s (of_f32 exact_ops) VECTOR_DIM (replicate 400 0) = replicate 100 0"
    using unpack_f32s_zeros [of "of_f32 exact_ops" 100] by (simp add: VECTOR_DIM_def exact_ops_def)
  from r show ?thesis by (simp only: l v)
qed

lemma load_header_only: "load_glove_binary exact_ops [1, 0, 0, 0] = Inl (StructError (BufferSize 2))"
proof -
  have e: "[1, 0, 0, 0] = nat_le 4 (Suc 0) @ []" by (simp add: nat_le_numeral)
  have "load_glove_binary exact_ops [1, 0, 0, 0] = load_entries exact_ops (Suc 0) [] []"
    by (subst e, rule load_glove_binary_header) simp
  also have "\<dots> = Inl (StructError (BufferSize 2))"
    by (rule load_entries_short_len) simp
  finally show ?thesis .
qed

lemma load_one_of_two: "load_glove_binary exact_ops ([2, 0, 0, 0, 1, 0, 0x61] @ replicate 400 0)
   = Inl (StructError (BufferSize 2))"
proof -
  have e: "[2, 0, 0, 0, 1, 0, 0x61] @ replicate 400 0
        = nat_le 4 (Suc (Suc 0)) @ ([1, 0, 0x61] @ replicate 400 0 @ [])"
    by (simp add: nat_le_numeral)
  have "load_glove_binary exact_ops ([2, 0, 0, 0, 1, 0, 0x61] @ replicate 400 0)
        = load_entries exact_ops (Suc (Suc 0)) ([1, 0, 0x61] @ replicate 400 0 @ []) []"
    by (subst e, rule load_glove_binary_header) simp
  also have "\<dots> = load_entries exact_ops (Suc 0) [] (dict_set [] [0x61] (replicate 100 0))"
    by (rule load_entries_record_a)
  also have "\<dots> = Inl (StructError (BufferSize 2))"
    by (rule load_entries_short_len) simp
  finally show ?thesis .
qed

lemma load_bad_word: "load_glove_binary exact_ops ([1, 0, 0, 0, 1, 0, 0xFF] @ replicate 400 0)
   = Inl (UnicodeDecodeError 0)"
proof -
  have e: "[1, 0, 0, 0, 1, 0, 0xFF] @ replicate 400 0
        = nat_le 4 (Suc 0) @ ([1, 0, 0xFF] @ replicate 400 0)"
    by (simp add: nat_le_numeral)
  have "load_glove_binary exact_ops ([1, 0, 0, 0, 1, 0, 0xFF] @ replicate 400 0)
        = load_entries exact_ops (Suc 0) ([1, 0, 0xFF] @ replicate 400 0) []"
    by (subst e, rule load_glove_binary_header) simp
  also have "\<dots> = Inl (UnicodeDecodeError 0)"
    by (rule load_entries_bad_word) simp_all
  finally show ?thesis .
qed

lemma load_one_record: "load_glove_binary exact_ops ([1, 0, 0, 0, 1, 0, 0x61] @ replicate 400 0)
   = Inr [([0x61], replicate 100 0)]"
proof -
  have e: "[1, 0, 0, 0, 1, 0, 0x61] @ replicate 400 0
        = nat_le 4 (Suc 0) @ ([1, 0, 0x61] @ replicate 400 0 @ [])"
    by (simp add: nat_le_numeral)
  have "load_glove_binary exact_ops ([1, 0, 0, 0, 1, 0, 0x61] @ replicate 400 0)
        = load_entries exact_ops (Suc 0) ([1, 0, 0x61] @ replicate 400 0 @ []) []"
    by (subst e, rule load_glove_binary_header) simp
  also have "\<dots> = load_entries exact_ops 0 [] (dict_set [] [0x61] (replicate 100 0))"
    by (rule load_entries_record_a)
  finally show ?thesis by simp
qed

text \<open>
  Claim C8, as amended. \<open>load_glove_binary\<close> raises rather than returning a store
  \<^item> on a file too short for the header (\<open>struct.error\<close>),
  \<^item> at a record whose length field is cut short (\<open>struct.error\<close>),
  \<^item> at a record that ends before its vector is complete, in particular when the
    declared length of the word claims more bytes than remain: \<open>struct.error\<close> for the
    vector, or \<open>UnicodeDecodeError\<close> when the bytes read for the word are not valid UTF-8,
  \<^item> at a record whose word bytes are not valid UTF-8: \<open>UnicodeDecodeError\<close>, with the
    position of the ill-formed sequence inside the word,
  \<^item> and on every file cut anywhere before the end of the last record of a file it
    loads.
  No exception carries an offset into the file.
\<close>

theorem load_glove_binary_errors:
  "(length f < 4 \<longrightarrow> load_glove_binary fl f = Inl (StructError (BufferSize 4))) \<and>
   (length g < 2 \<longrightarrow> load_entries fl (Suc n) g acc = Inl (StructError (BufferSize 2))) \<and>
   (2 \<le> length g \<and> length g < 2 + le_nat (take 2 g) + VECTOR_DIM * 4 \<longrightarrow>
      load_entries fl (Suc n) g acc = Inl (StructError (BufferSize (VECTOR_DIM * 4))) \<or>
      (\<exists>p. load_entries fl (Suc n) g acc = Inl (UnicodeDecodeError p))) \<and>
   (2 \<le> length g \<and> utf8_decode_at 0 (take (le_nat (take 2 g)) (drop 2 g)) = Inl p \<longrightarrow>
      load_entries fl (Suc n) g acc = Inl (UnicodeDecodeError p)) \<and>
   (load_glove_binary fl f = Inr store \<longrightarrow>
      (\<exists>k \<le> length f. load_glove_binary fl (take k f) = Inr store \<and>
         (\<forall>m < k. \<exists>e. load_glove_binary fl (take m f) = Inl e)))"
proof (intro conjI impI)
  assume "length f < 4"
  then show "load_glove_binary fl f = Inl (StructError (BufferSize 4))"
    by (simp add: load_glove_binary_def unpack_uint_def)
next
  assume "length g < 2"
  then show "load_entries fl (Suc n) g acc = Inl (StructError (BufferSize 2))"
    by (rule load_entries_short_len)
next
  assume "2 \<le> length g \<and> length g < 2 + le_nat (take 2 g) + VECTOR_DIM * 4"
  then show "load_entries fl (Suc n) g acc = Inl (StructError (BufferSize (VECTOR_DIM * 4))) \<or>
      (\<exists>p. load_entries fl (Suc n) g acc = Inl (UnicodeDecodeError p))"
    using load_entries_short_record [of g fl n acc] by blast
next
  assume "2 \<le> length g \<and> utf8_decode_at 0 (take (le_nat (take 2 g)) (drop 2 g)) = Inl p"
  then show "load_entries fl (Suc n) g acc = Inl (UnicodeDecodeError p)"
    using load_entries_bad_word [of g p fl n acc] by blast
next
  assume "load_glove_binary fl f = Inr store"
  then show "\<exists>k \<le> length f. load_glove_binary fl (take k f) = Inr store \<and>
         (\<forall>m < k. \<exists>e. load_glove_binary fl (take m f) = Inl e)"
    by (rule load_glove_binary_truncated)
qed

theorem load_glove_binary_errors_witness:
  "load_glove_binary exact_ops [1, 0] = Inl (StructError (BufferSize 4)) \<and>
   load_entries exact_ops (Suc 0) [1] [] = Inl (StructError (BufferSize 2)) \<and>
   (load_entries exact_ops (Suc 0) [5, 0, 0x61] []
      = Inl (StructError (BufferSize (VECTOR_DIM * 4))) \<or>
    (\<exists>p. load_entries exact_ops (Suc 0) [5, 0, 0x61] [] = Inl (UnicodeDecodeError p))) \<and>
   load_entries exact_ops (Suc 0) ([1, 0, 0xFF] @ replicate 400 0) []
     = Inl (UnicodeDecodeError 0) \<and>
   (\<exists>k \<le> length ([1, 0, 0, 0, 1, 0, 0x61] @ replicate 400 (0::byte)).
      load_glove_binary exact_ops (take k ([1, 0, 0, 0, 1, 0, 0x61] @ replicate 400 0))
        = Inr [([0x61], replicate 100 0)] \<and>
      (\<forall>m < k. \<exists>e.
         load_glove_binary exact_ops (take m ([1, 0, 0, 0, 1, 0, 0x61] @ replicate 400 0))
           = Inl e))"
proof (intro conjI)
  have "length [1, 0 :: byte] < 4" by simp
  with load_glove_binary_errors [where f = "[1, 0]" and fl = exact_ops]
  show "load_glove_binary exact_ops [1, 0] = Inl (StructError (BufferSize 4))" by blast
next
  have "length [1 :: byte] < 2" by simp
  with load_glove_binary_errors [where g = "[1]" and fl = exact_ops and n = 0 and acc = "[]"]
  show "load_entries exact_ops (Suc 0) [1] [] = Inl (StructError (BufferSize 2))" by blast
next
  have "2 \<le> length [5, 0, 0x61 :: byte] \<and>
        length [5, 0, 0x61 :: byte] < 2 + le_nat (take 2 [5, 0, 0x61]) + VECTOR_DIM * 4"
    by (simp add: VECTOR_DIM_def)
  with load_glove_binary_errors
    [where g = "[5, 0, 0x61]" and fl = exact_ops and n = 0 and acc = "[]"]
  show "load_entries exact_ops (Suc 0) [5, 0, 0x61] []
          = Inl (StructError (BufferSize (VECTOR_DIM * 4))) \<or>
        (\<exists>p. load_entries exact_ops (Suc 0) [5, 0, 0x61] [] = Inl (UnicodeDecodeError p))"
    by blast
next
  let ?g = "[1, 0, 0xFF] @ replicate 400 (0::byte)"
  have "2 \<le> length ?g \<and> utf8_decode_at 0 (take (le_nat (take 2 ?g)) (drop 2 ?g)) = Inl 0"
    by simp
  with load_glove_binary_errors
    [where g = ?g and fl = exact_ops and n = 0 and acc = "[]" and p = 0]
  show "load_entries exact_ops (Suc 0) ?g [] = Inl (UnicodeDecodeError 0)" by blast
next
  let ?f = "[1, 0, 0, 0, 1, 0, 0x61] @ replicate 400 (0::byte)"
  from load_glove_binary_errors
    [where f = ?f and fl = exact_ops and store = "[([0x61], replicate 100 0)]"]
    load_one_record
  show "\<exists>k \<le> length ?f.
      load_glove_binary exact_ops (take k ?f) = Inr [([0x61], replicate 100 0)] \<and>
      (\<forall>m < k. \<exists>e. load_glove_binary exact_ops (take m ?f) = Inl e)"
    by blast
qed

text \<open>
  The claim has the error surfaced with the byte offset where it was detected. A file
  that ends after its header and a file that ends after its first record, 403 bytes
  later, raise the same \<open>struct.error\<close>; and an ill-formed word at offset 6 of the file
  raises \<open>UnicodeDecodeError\<close> with position 0, its place in the bytes of the word.
\<close>

theorem load_error_offset_counterexample:
  "load_glove_binary exact_ops [1, 0, 0, 0] = Inl (StructError (BufferSize 2)) \<and>
   load_glove_binary exact_ops ([2, 0, 0, 0, 1, 0, 0x61] @ replicate 400 0)
     = Inl (StructError (BufferSize 2)) \<and>
   length [1, 0, 0, 0 :: byte] = 4 \<and>
   length ([2, 0, 0, 0, 1, 0, 0x61] @ replicate 400 (0::byte)) = 407 \<and>
   load_glove_binary exact_ops ([1, 0, 0, 0, 1, 0, 0xFF] @ replicate 400 0)
     = Inl (UnicodeDecodeError 0)"
  using load_header_only load_one_of_two load_bad_word by simp

section \<open>The reduction of the corpus\<close>

lemma split_from_dropWhile: "cur = [] \<Longrightarrow> split_from cur (dropWhile isspace s) = split_from cur s"
  by (induction s) auto

lemma split_from_snoc_space: "isspace c \<Longrightarrow> split_from cur (s @ [c]) = split_from cur s"
  by (induction s arbitrary: cur) auto

lemma split_from_rstrip: "split_from cur (rev (dropWhile isspace (rev s))) = split_from cur s"
proof (induction s rule: rev_induct)
  case Nil
  then show ?case by simp
next
  case (snoc c s)
  then show ?case by (cases "isspace c") (simp_all add: split_from_snoc_space)
qed

lemma split_strip: "split (strip s) = split s"
  by (simp add: split_def strip_def split_from_rstrip split_from_dropWhile)

lemma split_from_token:
  "\<forall>c \<in> set t. \<not> isspace c \<Longrightarrow> split_from cur (t @ s) = split_from (cur @ t) s"
  by (induction t arbitrary: cur) auto

lemma split_from_fields:
  assumes "tok \<noteq> []" "\<forall>c \<in> set tok. \<not> isspace c"
  shows "cur \<noteq> [] \<Longrightarrow> split_from cur (concat (replicate n (0x20 # tok))) = cur # replicate n tok"
proof (induction n arbitrary: cur)
  case 0
  then show ?case by simp
next
  case (Suc n)
  have "split_from cur (concat (replicate (Suc n) (0x20 # tok)))
        = cur # split_from [] (tok @ concat (replicate n (0x20 # tok)))"
    using Suc.prems by (simp add: isspace_32)
  also have "split_from [] (tok @ concat (replicate n (0x20 # tok)))
             = split_from tok (concat (replicate n (0x20 # tok)))"
    using split_from_token [OF assms(2), of "[]"] by simp
  also have "\<dots> = tok # replicate n tok" using assms(1) by (rule Suc.IH)
  finally show ?case by simp
qed

lemma split_fields:
  assumes "word \<noteq> []" "\<forall>c \<in> set word. \<not> isspace c" "tok \<noteq> []" "\<forall>c \<in> set tok. \<not> isspace c"
  shows "split (word @ concat (replicate n (0x20 # tok))) = word # replicate n tok"
proof -
  have "split (word @ concat (replicate n (0x20 # tok)))
        = split_from word (concat (replicate n (0x20 # tok)))"
    using split_from_token [OF assms(2), of "[]"] by (simp add: split_def)
  also have "\<dots> = word # replicate n tok" using assms(3,4,1) by (rule split_from_fields)
  finally show ?thesis .
qed

lemma parse_floats_replicate:
  "fo x = Some y \<Longrightarrow> parse_floats fo (replicate n x) = Inr (replicate n y)"
  by (induction n) auto

lemma float_of_1: "float_of exact_ops (py ''1'') = Some 1"
  by (simp add: exact_ops_def py_def)

lemma parse_line_ones:
  assumes "word \<noteq> []" "\<forall>c \<in> set word. \<not> isspace c"
  shows "parse_line exact_ops (word @ concat (replicate n (py '' 1'')))
         = Inr (word, replicate n 1)"
proof -
  have s: "py '' 1'' = 0x20 # py ''1''" by (simp add: py_def)
  have "split (word @ concat (replicate n (0x20 # py ''1''))) = word # replicate n (py ''1'')"
    using assms by (rule split_fields) (simp_all add: py_def isspace_def)
  moreover have "parse_floats (float_of exact_ops) (replicate n (py ''1'')) = Inr (replicate n 1)"
    using float_of_1 by (rule parse_floats_replicate)
  ultimately show ?thesis
    by (simp add: parse_line_def split_strip s)
qed


lemma load_lines_entries:
  "map (parse_line fl) (take (nat (top_k - int i)) lines) = map Inr entries \<Longrightarrow>
   load_lines fl top_k i lines d
   = Inr (foldl (\<lambda>d (w, v). dict_set d w v) d
            (filter (\<lambda>e. length (snd e) = VECTOR_DIM) entries))"
proof (induction lines arbitrary: i d entries)
  case Nil
  then show ?case by simp
next
  case (Cons line rest)
  show ?case
  proof (cases "int i \<ge> top_k")
    case True
    with Cons.prems have "entries = []" by simp
    with True show ?thesis by simp
  next
    case False
    then have n: "nat (top_k - int i) = Suc (nat (top_k - int (Suc i)))" by simp
    from Cons.prems obtain e es where e: "parse_line fl line = Inr e"
      and es: "map (parse_line fl) (take (nat (top_k - int (Suc i))) rest) = map Inr es"
      and entries: "entries = e # es"
      unfolding n by (cases entries) auto
    obtain w v where wv: "e = (w, v)" by (cases e)
    from Cons.IH [OF es] False e show ?thesis by (simp add: entries wv)
  qed
qed


lemma load_lines_take:
  "load_lines fl top_k i lines d = load_lines fl top_k i (take (nat (top_k - int i)) lines) d"
proof (induction lines arbitrary: i d)
  case Nil
  then show ?case by simp
next
  case (Cons line rest)
  show ?case
  proof (cases "int i \<ge> top_k")
    case True
    then show ?thesis by simp
  next
    case False
    then have n: "nat (top_k - int i) = Suc (nat (top_k - int (Suc i)))" by simp
    from False Cons.IH [of "Suc i"] show ?thesis
      unfolding n by (simp split: sum.splits prod.splits)
  qed
qed

lemma parse_line_x1: "parse_line exact_ops (py ''x 1'') = Inr (py ''x'', [1])"
proof -
  have "py ''x 1'' = py ''x'' @ concat (replicate (Suc 0) (py '' 1''))" by (simp add: py_def)
  then show ?thesis
    using parse_line_ones [of "py ''x''" "Suc 0"] by (simp add: py_def isspace_def)
qed

lemma parse_line_a: "parse_line exact_ops (py ''a'' @ concat (replicate 100 (py '' 1'')))
    = Inr (py ''a'', replicate 100 1)"
  by (rule parse_line_ones) (simp_all add: py_def isspace_def)

lemma parse_line_b: "parse_line exact_ops (py ''b'' @ concat (replicate 100 (py '' 1'')))
    = Inr (py ''b'', replicate 100 1)"
  by (rule parse_line_ones) (simp_all add: py_def isspace_def)

text \<open>
  Claim C3, as amended. \<open>load_glove_vectors\<close> reads the first \<open>top_k\<close> lines and no
  other. Where each of these lines has a word and numbers after it, the store is built
  from those with exactly \<open>VECTOR_DIM\<close> numbers, inserted in the order of the lines, a
  later line replacing the vector of a word seen before; a line with another count is
  skipped and still counts as one of the \<open>top_k\<close> lines. So when the first \<open>top_k\<close> lines
  all have \<open>VECTOR_DIM\<close> numbers and distinct words, the store holds exactly these
  lines in their order.
\<close>

theorem load_glove_vectors_first_lines:
  "load_glove_vectors fl lines top_k = load_glove_vectors fl (take (nat top_k) lines) top_k \<and>
   (map (parse_line fl) (take (nat top_k) lines) = map Inr entries \<longrightarrow>
      load_glove_vectors fl lines top_k
      = Inr (foldl (\<lambda>d (w, v). dict_set d w v) []
               (filter (\<lambda>e. length (snd e) = VECTOR_DIM) entries)) \<and>
      ((\<forall>e \<in> set entries. length (snd e) = VECTOR_DIM) \<and> distinct (map fst entries) \<longrightarrow>
         load_glove_vectors fl lines top_k = Inr entries))"
proof (intro conjI impI)
  have z: "nat (top_k - int 0) = nat top_k" by simp
  have t: "take (nat top_k) (take (nat top_k) lines) = take (nat top_k) lines" by simp
  have "load_lines fl top_k 0 lines [] = load_lines fl top_k 0 (take (nat top_k) lines) []"
    using load_lines_take [of fl top_k 0 lines "[]"] by (simp only: z)
  then show "load_glove_vectors fl lines top_k
             = load_glove_vectors fl (take (nat top_k) lines) top_k"
    by (simp only: load_glove_vectors_def)
next
  assume "map (parse_line fl) (take (nat top_k) lines) = map Inr entries"
  then show r: "load_glove_vectors fl lines top_k
      = Inr (foldl (\<lambda>d (w, v). dict_set d w v) []
               (filter (\<lambda>e. length (snd e) = VECTOR_DIM) entries))"
    using load_lines_entries [of fl top_k 0 lines entries "[]"]
    by (simp add: load_glove_vectors_def)
  assume "(\<forall>e \<in> set entries. length (snd e) = VECTOR_DIM) \<and> distinct (map fst entries)"
  then have "filter (\<lambda>e. length (snd e) = VECTOR_DIM) entries = entries"
    and "foldl (\<lambda>d (w, v). dict_set d w v) [] entries = entries"
    using insert_distinct [of "[]" entries] by simp_all
  with r show "load_glove_vectors fl lines top_k = Inr entries" by simp
qed

theorem load_glove_vectors_first_lines_witness:
  "load_glove_vectors exact_ops
     [py ''x 1'', py ''a'' @ concat (replicate 100 (py '' 1'')),
      py ''b'' @ concat (replicate 100 (py '' 1''))] 3
   = Inr [(py ''a'', replicate 100 1), (py ''b'', replicate 100 1)] \<and>
   load_glove_vectors exact_ops
     [py ''a'' @ concat (replicate 100 (py '' 1'')),
      py ''b'' @ concat (replicate 100 (py '' 1'')), py ''x 1''] 2
   = Inr [(py ''a'', replicate 100 1), (py ''b'', replicate 100 1)]"
proof
  let ?A = "py ''a'' @ concat (replicate 100 (py '' 1''))"
  let ?B = "py ''b'' @ concat (replicate 100 (py '' 1''))"
  have ab: "py ''a'' \<noteq> py ''b''" by (simp add: py_def)
  have "map (parse_line exact_ops) (take (nat 3) [py ''x 1'', ?A, ?B])
        = map Inr [(py ''x'', [1]), (py ''a'', replicate 100 1), (py ''b'', replicate 100 1)]"
    by (simp add: parse_line_x1 parse_line_a parse_line_b)
  with load_glove_vectors_first_lines [of exact_ops "[py ''x 1'', ?A, ?B]" 3
      "[(py ''x'', [1]), (py ''a'', replicate 100 1), (py ''b'', replicate 100 1)]"]
  have "load_glove_vectors exact_ops [py ''x 1'', ?A, ?B] 3
        = Inr (foldl (\<lambda>d (w, v). dict_set d w v) []
               (filter (\<lambda>e. length (snd e) = VECTOR_DIM)
                  [(py ''x'', [1]), (py ''a'', replicate 100 1), (py ''b'', replicate 100 1)]))"
    by blast
  then show "load_glove_vectors exact_ops [py ''x 1'', ?A, ?B] 3
        = Inr [(py ''a'', replicate 100 1), (py ''b'', replicate 100 1)]"
    using ab by (simp add: VECTOR_DIM_def)
  have "map (parse_line exact_ops) (take (nat 2) [?A, ?B, py ''x 1''])
        = map Inr [(py ''a'', replicate 100 1), (py ''b'', replicate 100 1)]"
    by (simp add: parse_line_a parse_line_b numeral_2_eq_2)
  moreover have "(\<forall>e \<in> set [(py ''a'', replicate 100 (1::rat)), (py ''b'', replicate 100 1)].
                    length (snd e) = VECTOR_DIM) \<and>
                 distinct (map fst [(py ''a'', replicate 100 (1::rat)), (py ''b'', replicate 100 1)])"
    using ab by (simp add: VECTOR_DIM_def)
  ultimately show "load_glove_vectors exact_ops [?A, ?B, py ''x 1''] 2
        = Inr [(py ''a'', replicate 100 1), (py ''b'', replicate 100 1)]"
    using load_glove_vectors_first_lines [of exact_ops "[?A, ?B, py ''x 1'']" 2
      "[(py ''a'', replicate 100 1), (py ''b'', replicate 100 1)]"]
    by blast
qed

text \<open>
  The claim has the malformed lines not count toward \<open>K\<close>. With \<open>K = 2\<close> and a corpus of
  a line with one number followed by two valid lines, the loop stops after the second
  line, and the store holds the first valid line only.
\<close>

theorem load_glove_vectors_cap_counterexample:
  "load_glove_vectors exact_ops
     [py ''x 1'', py ''a'' @ concat (replicate 100 (py '' 1'')),
      py ''b'' @ concat (replicate 100 (py '' 1''))] 2
   = Inr [(py ''a'', replicate 100 1)] \<and>
   parse_line exact_ops (py ''a'' @ concat (replicate 100 (py '' 1'')))
   = Inr (py ''a'', replicate 100 1) \<and>
   parse_line exact_ops (py ''b'' @ concat (replicate 100 (py '' 1'')))
   = Inr (py ''b'', replicate 100 1)"
proof -
  let ?A = "py ''a'' @ concat (replicate 100 (py '' 1''))"
  let ?B = "py ''b'' @ concat (replicate 100 (py '' 1''))"
  have "map (parse_line exact_ops) (take (nat (2 - int 0)) [py ''x 1'', ?A, ?B])
        = map Inr [(py ''x'', [1]), (py ''a'', replicate 100 1)]"
    by (simp add: parse_line_x1 parse_line_a numeral_2_eq_2)
  from load_lines_entries [OF this, of "[]"]
  have "load_glove_vectors exact_ops [py ''x 1'', ?A, ?B] 2 = Inr [(py ''a'', replicate 100 1)]"
    by (simp add: load_glove_vectors_def VECTOR_DIM_def)
  with parse_line_a parse_line_b show ?thesis by simp
qed

text \<open>
  Claim C4 at a failing input: a line with a token that is no number does not get
  skipped. \<open>float\<close> raises \<open>ValueError\<close>, which nothing catches, and the valid line after
  it is never read. A line without any token raises \<open>IndexError\<close> in the same way.
\<close>

theorem load_glove_vectors_non_numeric:
  "load_glove_vectors exact_ops
     [py ''a 1 x'', py ''b'' @ concat (replicate 100 (py '' 1''))] TOP_K_WORDS = Inl ValueError \<and>
   load_glove_vectors exact_ops
     [py '' '', py ''b'' @ concat (replicate 100 (py '' 1''))] TOP_K_WORDS = Inl IndexError"
proof
  have "parse_line exact_ops (py ''a 1 x'') = Inl ValueError"
    by (simp add: parse_line_def split_strip)
      (simp add: split_def py_def isspace_def exact_ops_def)
  then show "load_glove_vectors exact_ops
     [py ''a 1 x'', py ''b'' @ concat (replicate 100 (py '' 1''))] TOP_K_WORDS = Inl ValueError"
    by (simp add: load_glove_vectors_def TOP_K_WORDS_def)
  have "parse_line exact_ops (py '' '') = Inl IndexError"
    by (simp add: parse_line_def split_strip) (simp add: split_def py_def isspace_def)
  then show "load_glove_vectors exact_ops
     [py '' '', py ''b'' @ concat (replicate 100 (py '' 1''))] TOP_K_WORDS = Inl IndexError"
    by (simp add: load_glove_vectors_def TOP_K_WORDS_def)
qed

section \<open>Loaded stores\<close>









section \<open>The embedding of a command\<close>

lemma tokenize_empty: "tokenize [] = []"
  by (simp add: tokenize_def)

lemma extend_tokens_concat: "extend_tokens acc texts = acc @ concat (map tokenize texts)"
  by (induction texts arbitrary: acc) auto

lemma embedding_tokens: "extend_tokens [] (embedding_texts cmd) = spec_token_stream cmd"
  by (auto simp: extend_tokens_concat embedding_texts_def spec_token_stream_def truthy_def
        tokenize_empty split: option.splits)

lemma dict_get_key: "dict_get d k \<noteq> None \<longleftrightarrow> k \<in> set (map fst d)"
  by (simp add: dict_get_def map_of_eq_None_iff)

lemma matched_vectors_spec:
  "matched_vectors word_vectors acc tokens = acc @ spec_matched word_vectors tokens"
proof (induction tokens arbitrary: acc)
  case Nil
  then show ?case by (simp add: spec_matched_def)
next
  case (Cons t ts)
  show ?case
  proof (cases "dict_get word_vectors t")
    case None
    then have "t \<notin> set (map fst word_vectors)" using dict_get_key [of word_vectors t] by simp
    with None Cons.IH [of acc] show ?thesis by (simp add: spec_matched_def)
  next
    case (Some v)
    then have "t \<in> set (map fst word_vectors)" using dict_get_key [of word_vectors t] by simp
    with Some Cons.IH [of "acc @ [v]"] show ?thesis by (simp add: spec_matched_def)
  qed
qed

lemma spec_matched_lengths:
  assumes "vector_store word_vectors" "v \<in> set (spec_matched word_vectors tokens)"
  shows "length v = VECTOR_DIM"
proof -
  from assms(2) obtain t where t: "t \<in> set (map fst word_vectors)"
    and v: "v = the (dict_get word_vectors t)" by (auto simp: spec_matched_def)
  from t obtain v' where "dict_get word_vectors t = Some v'"
    using dict_get_key [of word_vectors t] by auto
  with v have "(t, v) \<in> set word_vectors" by (simp add: dict_get_def map_of_SomeD)
  then have "v \<in> set (map snd word_vectors)" by force
  with assms(1) show ?thesis unfolding vector_store_def by blast
qed

lemma add_vector_indices:
  assumes "\<forall>i \<in> set is. i < length emb \<and> i < length vec" "distinct is"
  shows "\<exists>emb'. add_vector fl is emb vec = Inr emb' \<and> length emb' = length emb \<and>
           (\<forall>i < length emb. emb' ! i = (if i \<in> set is then fadd fl (emb ! i) (vec ! i) else emb ! i))"
  using assms
proof (induction "is" arbitrary: emb)
  case Nil
  then show ?case by simp
next
  case (Cons j js)
  let ?emb1 = "emb[j := fadd fl (emb ! j) (vec ! j)]"
  from Cons.prems have j: "j < length emb" "j < length vec" "j \<notin> set js" by simp_all
  from Cons.prems have "\<forall>i \<in> set js. i < length ?emb1 \<and> i < length vec" "distinct js" by simp_all
  from Cons.IH [OF this] obtain emb' where r: "add_vector fl js ?emb1 vec = Inr emb'"
    and l: "length emb' = length ?emb1"
    and n: "\<And>i. i < length ?emb1 \<Longrightarrow>
              emb' ! i = (if i \<in> set js then fadd fl (?emb1 ! i) (vec ! i) else ?emb1 ! i)"
    by blast
  have "emb' ! i = (if i \<in> set (j # js) then fadd fl (emb ! i) (vec ! i) else emb ! i)"
    if "i < length emb" for i
    using n [of i] that j by (cases "i = j") auto
  with r l j show ?case by simp
qed

lemma add_vector_range:
  assumes "length emb = VECTOR_DIM" "VECTOR_DIM \<le> length vec"
  shows "add_vector fl [0..<VECTOR_DIM] emb vec
         = Inr (map (\<lambda>i. fadd fl (emb ! i) (vec ! i)) [0..<VECTOR_DIM])"
proof -
  from assms have "\<forall>i \<in> set [0..<VECTOR_DIM]. i < length emb \<and> i < length vec" by simp
  from add_vector_indices [OF this, of fl] obtain emb'
    where r: "add_vector fl [0..<VECTOR_DIM] emb vec = Inr emb'" and l: "length emb' = length emb"
      and n: "\<And>i. i < length emb \<Longrightarrow> emb' ! i
                = (if i \<in> set [0..<VECTOR_DIM] then fadd fl (emb ! i) (vec ! i) else emb ! i)"
    by auto
  have "emb' = map (\<lambda>i. fadd fl (emb ! i) (vec ! i)) [0..<VECTOR_DIM]"
    using l n assms(1) by (intro nth_equalityI) simp_all
  with r show ?thesis by simp
qed

lemma add_vectors_fold:
  assumes "\<forall>v \<in> set vectors. VECTOR_DIM \<le> length v" "length emb = VECTOR_DIM"
  shows "add_vectors fl emb vectors
         = Inr (map (\<lambda>i. foldl (fadd fl) (emb ! i) (map (\<lambda>v. v ! i) vectors)) [0..<VECTOR_DIM])"
  using assms
proof (induction vectors arbitrary: emb)
  case Nil
  then have "emb = map (\<lambda>i. emb ! i) [0..<VECTOR_DIM]" by (intro nth_equalityI) simp_all
  then show ?case by simp
next
  case (Cons vec vectors)
  let ?emb1 = "map (\<lambda>i. fadd fl (emb ! i) (vec ! i)) [0..<VECTOR_DIM]"
  from Cons.prems have a: "add_vector fl [0..<VECTOR_DIM] emb vec = Inr ?emb1"
    by (intro add_vector_range) simp_all
  from Cons.prems have "\<forall>v \<in> set vectors. VECTOR_DIM \<le> length v" "length ?emb1 = VECTOR_DIM"
    by simp_all
  from Cons.IH [OF this] a show ?case by simp
qed

lemma divide_all_indices:
  assumes "\<forall>i \<in> set is. i < length emb" "distinct is"
  shows "\<exists>emb'. divide_all fl is emb n = Inr emb' \<and> length emb' = length emb \<and>
           (\<forall>i < length emb. emb' ! i = (if i \<in> set is then fdiv fl (emb ! i) n else emb ! i))"
  using assms
proof (induction "is" arbitrary: emb)
  case Nil
  then show ?case by simp
next
  case (Cons j js)
  let ?emb1 = "emb[j := fdiv fl (emb ! j) n]"
  from Cons.prems have j: "j < length emb" "j \<notin> set js" by simp_all
  from Cons.prems have "\<forall>i \<in> set js. i < length ?emb1" "distinct js" by simp_all
  from Cons.IH [OF this] obtain emb' where r: "divide_all fl js ?emb1 n = Inr emb'"
    and l: "length emb' = length ?emb1"
    and n: "\<And>i. i < length ?emb1 \<Longrightarrow>
              emb' ! i = (if i \<in> set js then fdiv fl (?emb1 ! i) n else ?emb1 ! i)"
    by blast
  have "emb' ! i = (if i \<in> set (j # js) then fdiv fl (emb ! i) n else emb ! i)"
    if "i < length emb" for i
    using n [of i] that j by (cases "i = j") auto
  with r l j show ?case by simp
qed

lemma divide_all_range:
  assumes "length emb = VECTOR_DIM"
  shows "divide_all fl [0..<VECTOR_DIM] emb n = Inr (map (\<lambda>i. fdiv fl (emb ! i) n) [0..<VECTOR_DIM])"
proof -
  from assms have "\<forall>i \<in> set [0..<VECTOR_DIM]. i < length emb" by simp
  from divide_all_indices [OF this, of fl n] obtain emb'
    where r: "divide_all fl [0..<VECTOR_DIM] emb n = Inr emb'" and l: "length emb' = length emb"
      and n: "\<And>i. i < length emb \<Longrightarrow> emb' ! i
                = (if i \<in> set [0..<VECTOR_DIM] then fdiv fl (emb ! i) n else emb ! i)"
    by auto
  have "emb' = map (\<lambda>i. fdiv fl (emb ! i) n) [0..<VECTOR_DIM]"
    using l n assms(1) by (intro nth_equalityI) simp_all
  with r show ?thesis by simp
qed

lemma compute_embedding_spec:
  assumes "vector_store word_vectors"
  shows "compute_embedding fl cmd word_vectors = Inr (spec_embedding fl cmd word_vectors)"
proof -
  let ?vs = "spec_matched word_vectors (spec_token_stream cmd)"
  have m: "matched_vectors word_vectors [] (extend_tokens [] (embedding_texts cmd)) = ?vs"
    by (simp add: matched_vectors_spec embedding_tokens)
  show ?thesis
  proof (cases "?vs = []")
    case True
    then show ?thesis
      by (simp add: compute_embedding_def spec_embedding_def m VECTOR_DIM_def)
  next
    case False
    let ?sum = "map (\<lambda>i. foldl (fadd fl) (replicate VECTOR_DIM (fzero fl) ! i) (map (\<lambda>v. v ! i) ?vs))
                  [0..<VECTOR_DIM]"
    have "\<forall>v \<in> set ?vs. VECTOR_DIM \<le> length v"
      using spec_matched_lengths [OF assms] by fastforce
    then have a: "add_vectors fl (replicate VECTOR_DIM (fzero fl)) ?vs = Inr ?sum"
      by (intro add_vectors_fold) simp_all
    have d: "divide_all fl [0..<VECTOR_DIM] ?sum (length ?vs)
             = Inr (map (\<lambda>i. fdiv fl (?sum ! i) (length ?vs)) [0..<VECTOR_DIM])"
      by (intro divide_all_range) simp
    have "map (\<lambda>i. fdiv fl (?sum ! i) (length ?vs)) [0..<VECTOR_DIM]
          = map (\<lambda>i. fdiv fl (foldl (fadd fl) (fzero fl) (map (\<lambda>v. v ! i) ?vs)) (length ?vs))
              [0..<100]"
      by (simp add: VECTOR_DIM_def)
    with False a d show ?thesis
      by (simp add: compute_embedding_def spec_embedding_def m Let_def)
  qed
qed


lemma matched_vectors_cong:
  "\<forall>t \<in> set tokens. dict_get wv1 t = dict_get wv2 t \<Longrightarrow>
   matched_vectors wv1 acc tokens = matched_vectors wv2 acc tokens"
  by (induction tokens arbitrary: acc) (auto split: option.splits)

text \<open>The store and the record of the examples, and what the record matches.\<close>

lemma example_tokens:
  "spec_token_stream \<lparr> command = Some (py ''Git-Log v2!!''),
       description = Some (py ''Show the log''), keywords_field = Some [py ''git''] \<rparr>
   = [py ''git'', py ''log'', py ''v2'', py ''show'', py ''the'', py ''log'', py ''git'']"
  by (simp add: spec_token_stream_def tokenize_eval)

lemma example_matched:
  "spec_matched [(py ''git'', replicate 100 (1::rat)), (py ''log'', replicate 100 0)]
     [py ''git'', py ''log'', py ''v2'', py ''show'', py ''the'', py ''log'', py ''git'']
   = [replicate 100 1, replicate 100 0, replicate 100 0, replicate 100 1]"
  by (simp add: spec_matched_def dict_get_def py_def)

lemma example_store:
  "vector_store [(py ''git'', replicate 100 (1::rat)), (py ''log'', replicate 100 0)]"
  by (simp add: vector_store_def VECTOR_DIM_def py_def)

text \<open>
  Claim C1. On a store of the data model, as every loaded store is
  (\<open>load_glove_binary_vector_store\<close>), \<open>compute_embedding\<close>
  returns the embedding of the specification: with the matched vectors taken in the
  order of the token stream, the zero vector of dimension 100 when there is none, and
  otherwise the vector of dimension 100 whose component \<open>i\<close> is the sum of the
  components \<open>i\<close> divided by the number of matched vectors.
\<close>

theorem compute_embedding_mean:
  assumes "vector_store word_vectors"
  shows "compute_embedding fl cmd word_vectors = Inr (spec_embedding fl cmd word_vectors) \<and>
    (spec_matched word_vectors (spec_token_stream cmd) = [] \<longrightarrow>
       compute_embedding fl cmd word_vectors = Inr (replicate 100 (fzero fl))) \<and>
    (spec_matched word_vectors (spec_token_stream cmd) \<noteq> [] \<longrightarrow>
       (\<exists>e. compute_embedding fl cmd word_vectors = Inr e \<and> length e = 100 \<and>
          (\<forall>i < 100. e ! i =
             fdiv fl (foldl (fadd fl) (fzero fl)
                        (map (\<lambda>v. v ! i) (spec_matched word_vectors (spec_token_stream cmd))))
               (length (spec_matched word_vectors (spec_token_stream cmd))))))"
proof -
  have c: "compute_embedding fl cmd word_vectors = Inr (spec_embedding fl cmd word_vectors)"
    using assms by (rule compute_embedding_spec)
  show ?thesis
  proof (intro conjI impI)
    show "compute_embedding fl cmd word_vectors = Inr (spec_embedding fl cmd word_vectors)"
      by (rule c)
  next
    assume "spec_matched word_vectors (spec_token_stream cmd) = []"
    then show "compute_embedding fl cmd word_vectors = Inr (replicate 100 (fzero fl))"
      by (simp add: c spec_embedding_def)
  next
    assume "spec_matched word_vectors (spec_token_stream cmd) \<noteq> []"
    then show "\<exists>e. compute_embedding fl cmd word_vectors = Inr e \<and> length e = 100 \<and>
          (\<forall>i < 100. e ! i =
             fdiv fl (foldl (fadd fl) (fzero fl)
                        (map (\<lambda>v. v ! i) (spec_matched word_vectors (spec_token_stream cmd))))
               (length (spec_matched word_vectors (spec_token_stream cmd))))"
      by (simp add: c spec_embedding_def Let_def)
  qed
qed

theorem compute_embedding_mean_witness:
  "vector_store [(py ''git'', replicate 100 (1::rat)), (py ''log'', replicate 100 0)] \<and>
   compute_embedding exact_ops
     \<lparr> command = Some (py ''Git-Log v2!!''), description = Some (py ''Show the log''),
       keywords_field = Some [py ''git''] \<rparr>
     [(py ''git'', replicate 100 1), (py ''log'', replicate 100 0)]
   = Inr (replicate 100 (1 / 2))"
proof -
  let ?W = "[(py ''git'', replicate 100 (1::rat)), (py ''log'', replicate 100 0)]"
  let ?c = "\<lparr> command = Some (py ''Git-Log v2!!''), description = Some (py ''Show the log''),
              keywords_field = Some [py ''git''] \<rparr>"
  let ?vs = "[replicate 100 (1::rat), replicate 100 0, replicate 100 0, replicate 100 1]"
  have m: "spec_matched ?W (spec_token_stream ?c) = ?vs"
    by (simp only: example_tokens example_matched)
  from compute_embedding_mean [OF example_store, of exact_ops ?c]
  obtain e where e: "compute_embedding exact_ops ?c ?W = Inr e" and l: "length e = 100"
    and n: "\<And>i. i < 100 \<Longrightarrow> e ! i
              = fdiv exact_ops (foldl (fadd exact_ops) (fzero exact_ops) (map (\<lambda>v. v ! i) ?vs))
                  (length ?vs)"
    unfolding m by auto
  have "e = replicate 100 (1 / 2)"
  proof (rule nth_equalityI)
    show "length e = length (replicate 100 (1 / 2 :: rat))" using l by simp
    fix i assume "i < length e"
    with l have i: "i < 100" by simp
    from n [OF i] i show "e ! i = replicate 100 (1 / 2) ! i" by (simp add: exact_ops_def)
  qed
  with e example_store show ?thesis by simp
qed

lemma spec_matched_Cons:
  "spec_matched wv (t # ts)
   = (case dict_get wv t of None \<Rightarrow> spec_matched wv ts | Some v \<Rightarrow> v # spec_matched wv ts)"
proof (cases "dict_get wv t")
  case None
  then have "t \<notin> set (map fst wv)" using dict_get_key [of wv t] by simp
  with None show ?thesis by (simp add: spec_matched_def)
next
  case (Some v)
  then have "t \<in> set (map fst wv)" using dict_get_key [of wv t] by simp
  with Some show ?thesis by (simp add: spec_matched_def)
qed

lemma spec_matched_sum:
  "foldl add z (map (\<lambda>v. v ! i) (spec_matched wv ts))
   = foldl (\<lambda>s t. case dict_get wv t of None \<Rightarrow> s | Some v \<Rightarrow> add s (v ! i)) z ts"
proof (induction ts arbitrary: z)
  case Nil
  show ?case by (simp add: spec_matched_def)
next
  case (Cons t ts)
  show ?case by (cases "dict_get wv t") (simp_all add: spec_matched_Cons Cons.IH)
qed

lemma spec_matched_count:
  "length (spec_matched wv ts) = length (filter (\<lambda>t. dict_get wv t \<noteq> None) ts)"
proof (induction ts)
  case Nil
  show ?case by (simp add: spec_matched_def)
next
  case (Cons t ts)
  show ?case by (cases "dict_get wv t") (simp_all add: spec_matched_Cons Cons.IH)
qed

lemma length_spec_embedding: "length (spec_embedding fl cmd wv) = 100"
  by (simp add: spec_embedding_def Let_def)

text \<open>
  Claim C6. \<open>compute_embedding\<close> reads its two arguments and nothing else (no random
  number, no clock, no \<open>set\<close> and no hash order), so it is a function of the record and
  the store, and what it returns on a store of the data model is fixed as follows:
  a vector of 100 components, where component \<open>i\<close> is the sum taken from \<open>0\<close> along
  the token stream of the record, from its first token to its last, each token that is
  a key of the store adding component \<open>i\<close> of its vector on the right and every other
  token adding nothing, divided by the number of tokens that are keys (\<open>0\<close> when there
  is none). No property of the addition is used, so an addition that does not commute
  or associate, as that of floats, gives the sum in this order and no other. A store
  that holds the same vectors for the tokens of the record, in whatever order and with
  whatever other words, gives the same result.
\<close>

theorem compute_embedding_deterministic:
  assumes "vector_store wv"
  shows "(\<exists>e. compute_embedding fl cmd wv = Inr e \<and> length e = 100 \<and>
            (\<forall>i < 100. e ! i =
               (if filter (\<lambda>t. dict_get wv t \<noteq> None) (spec_token_stream cmd) = [] then fzero fl
                else fdiv fl
                       (foldl (\<lambda>s t. case dict_get wv t of None \<Rightarrow> s
                                       | Some v \<Rightarrow> fadd fl s (v ! i))
                          (fzero fl) (spec_token_stream cmd))
                       (length (filter (\<lambda>t. dict_get wv t \<noteq> None) (spec_token_stream cmd)))))) \<and>
         ((\<forall>t \<in> set (spec_token_stream cmd). dict_get wv' t = dict_get wv t) \<longrightarrow>
            compute_embedding fl cmd wv' = compute_embedding fl cmd wv)"
proof (intro conjI impI)
  let ?ts = "spec_token_stream cmd"
  let ?vs = "spec_matched wv ?ts"
  let ?e = "spec_embedding fl cmd wv"
  have c: "compute_embedding fl cmd wv = Inr ?e"
    using assms by (rule compute_embedding_spec)
  have n: "?vs = [] \<longleftrightarrow> filter (\<lambda>t. dict_get wv t \<noteq> None) ?ts = []"
    using spec_matched_count [of wv ?ts] by (metis length_0_conv)
  have "?e ! i =
          (if filter (\<lambda>t. dict_get wv t \<noteq> None) ?ts = [] then fzero fl
           else fdiv fl
                  (foldl (\<lambda>s t. case dict_get wv t of None \<Rightarrow> s | Some v \<Rightarrow> fadd fl s (v ! i))
                     (fzero fl) ?ts)
                  (length (filter (\<lambda>t. dict_get wv t \<noteq> None) ?ts)))" if i: "i < 100" for i
  proof (cases "?vs = []")
    case True
    with i n show ?thesis by (simp add: spec_embedding_def)
  next
    case False
    with i have "?e ! i = fdiv fl (foldl (fadd fl) (fzero fl) (map (\<lambda>v. v ! i) ?vs)) (length ?vs)"
      by (simp add: spec_embedding_def Let_def)
    with False n show ?thesis by (simp add: spec_matched_sum spec_matched_count)
  qed
  with c length_spec_embedding [of fl cmd wv]
  show "\<exists>e. compute_embedding fl cmd wv = Inr e \<and> length e = 100 \<and>
            (\<forall>i < 100. e ! i =
               (if filter (\<lambda>t. dict_get wv t \<noteq> None) (spec_token_stream cmd) = [] then fzero fl
                else fdiv fl
                       (foldl (\<lambda>s t. case dict_get wv t of None \<Rightarrow> s
                                       | Some v \<Rightarrow> fadd fl s (v ! i))
                          (fzero fl) (spec_token_stream cmd))
                       (length (filter (\<lambda>t. dict_get wv t \<noteq> None) (spec_token_stream cmd)))))"
    by blast
next
  assume "\<forall>t \<in> set (spec_token_stream cmd). dict_get wv' t = dict_get wv t"
  then have "matched_vectors wv' [] (extend_tokens [] (embedding_texts cmd))
             = matched_vectors wv [] (extend_tokens [] (embedding_texts cmd))"
    unfolding embedding_tokens by (rule matched_vectors_cong)
  then show "compute_embedding fl cmd wv' = compute_embedding fl cmd wv"
    by (simp add: compute_embedding_def)
qed

text \<open>
  The theorem at the record of the examples, with an addition that shows the order:
  the tokens are \<open>git\<close>, \<open>log\<close>, \<open>v2\<close>, \<open>show\<close>, \<open>the\<close>, \<open>log\<close>, \<open>git\<close>, the store
  holds all of them but \<open>v2\<close>, and the digits of the result are those of the vectors
  of \<open>git\<close>, \<open>log\<close>, \<open>show\<close>, \<open>the\<close>, \<open>log\<close>, \<open>git\<close>, whichever order the store
  lists its words in.
\<close>

theorem compute_embedding_deterministic_witness:
  "vector_store
     [(py ''the'', replicate 100 (4::rat)), (py ''show'', replicate 100 3),
      (py ''log'', replicate 100 2), (py ''git'', replicate 100 1)] \<and>
   compute_embedding order_ops
     \<lparr> command = Some (py ''Git-Log v2!!''), description = Some (py ''Show the log''),
       keywords_field = Some [py ''git''] \<rparr>
     [(py ''the'', replicate 100 4), (py ''show'', replicate 100 3),
      (py ''log'', replicate 100 2), (py ''git'', replicate 100 1)]
   = Inr (replicate 100 123421) \<and>
   compute_embedding order_ops
     \<lparr> command = Some (py ''Git-Log v2!!''), description = Some (py ''Show the log''),
       keywords_field = Some [py ''git''] \<rparr>
     [(py ''git'', replicate 100 1), (py ''ls'', replicate 100 9), (py ''log'', replicate 100 2),
      (py ''show'', replicate 100 3), (py ''the'', replicate 100 4)]
   = Inr (replicate 100 123421)"
proof -
  let ?c = "\<lparr> command = Some (py ''Git-Log v2!!''), description = Some (py ''Show the log''),
              keywords_field = Some [py ''git''] \<rparr>"
  let ?W = "[(py ''the'', replicate 100 (4::rat)), (py ''show'', replicate 100 3),
             (py ''log'', replicate 100 2), (py ''git'', replicate 100 1)]"
  let ?W' = "[(py ''git'', replicate 100 (1::rat)), (py ''ls'', replicate 100 9),
              (py ''log'', replicate 100 2), (py ''show'', replicate 100 3),
              (py ''the'', replicate 100 4)]"
  have vs: "vector_store ?W" by (simp add: vector_store_def VECTOR_DIM_def py_def)
  have ag: "\<forall>t \<in> set (spec_token_stream ?c). dict_get ?W' t = dict_get ?W t"
    unfolding example_tokens by (simp add: dict_get_def py_def)
  from compute_embedding_deterministic [OF vs, of order_ops ?c ?W'] ag
  obtain e where e: "compute_embedding order_ops ?c ?W = Inr e" and l: "length e = 100"
    and n: "\<And>i. i < 100 \<Longrightarrow> e ! i =
               (if filter (\<lambda>t. dict_get ?W t \<noteq> None) (spec_token_stream ?c) = []
                then fzero order_ops
                else fdiv order_ops
                       (foldl (\<lambda>s t. case dict_get ?W t of None \<Rightarrow> s
                                       | Some v \<Rightarrow> fadd order_ops s (v ! i))
                          (fzero order_ops) (spec_token_stream ?c))
                       (length (filter (\<lambda>t. dict_get ?W t \<noteq> None) (spec_token_stream ?c))))"
    and e': "compute_embedding order_ops ?c ?W' = compute_embedding order_ops ?c ?W"
    by blast
  have "e = replicate 100 123421"
  proof (rule nth_equalityI)
    show "length e = length (replicate 100 (123421 :: rat))" using l by simp
    fix i assume "i < length e"
    with l have i: "i < 100" by simp
    from n [OF i] i show "e ! i = replicate 100 123421 ! i"
      unfolding example_tokens by (simp add: dict_get_def py_def order_ops_def)
  qed
  with e e' vs show ?thesis by simp
qed

lemma compute_embedding_falsy:
  "\<not> truthy (command cmd) \<Longrightarrow>
     compute_embedding fl cmd wv = compute_embedding fl (cmd\<lparr>command := None\<rparr>) wv"
  "\<not> truthy (description cmd) \<Longrightarrow>
     compute_embedding fl cmd wv = compute_embedding fl (cmd\<lparr>description := None\<rparr>) wv"
  "\<not> truthy (keywords_field cmd) \<Longrightarrow>
     compute_embedding fl cmd wv = compute_embedding fl (cmd\<lparr>keywords_field := None\<rparr>) wv"
  by (simp_all add: compute_embedding_def embedding_texts_def truthy_def)

lemma compute_embedding_no_fields:
  "compute_embedding fl \<lparr> command = None, description = None, keywords_field = None \<rparr> wv
   = Inr (replicate 100 (fzero fl))"
  by (simp add: compute_embedding_def embedding_texts_def truthy_def VECTOR_DIM_def)

text \<open>
  Claim C10. On a store of the data model \<open>compute_embedding\<close> raises for no record and
  returns a vector of 100 components. A field that is absent, null or empty adds no
  text: the tokens are those of the fields that are present, the record gives what it
  gives with the field removed, and a record with none of the three fields gives the
  zero vector.
\<close>

theorem compute_embedding_total:
  assumes "vector_store word_vectors"
  shows "(\<exists>e. compute_embedding fl cmd word_vectors = Inr e \<and> length e = 100) \<and>
    extend_tokens [] (embedding_texts cmd) = spec_token_stream cmd \<and>
    (\<not> truthy (command cmd) \<longrightarrow>
       compute_embedding fl cmd word_vectors
       = compute_embedding fl (cmd\<lparr>command := None\<rparr>) word_vectors) \<and>
    (\<not> truthy (description cmd) \<longrightarrow>
       compute_embedding fl cmd word_vectors
       = compute_embedding fl (cmd\<lparr>description := None\<rparr>) word_vectors) \<and>
    (\<not> truthy (keywords_field cmd) \<longrightarrow>
       compute_embedding fl cmd word_vectors
       = compute_embedding fl (cmd\<lparr>keywords_field := None\<rparr>) word_vectors) \<and>
    compute_embedding fl \<lparr> command = None, description = None, keywords_field = None \<rparr>
      word_vectors = Inr (replicate 100 (fzero fl))"
proof (intro conjI impI)
  show "\<exists>e. compute_embedding fl cmd word_vectors = Inr e \<and> length e = 100"
    using compute_embedding_spec [OF assms, of fl cmd] length_spec_embedding [of fl cmd word_vectors]
    by simp
  show "extend_tokens [] (embedding_texts cmd) = spec_token_stream cmd"
    by (rule embedding_tokens)
  show "compute_embedding fl \<lparr> command = None, description = None, keywords_field = None \<rparr>
      word_vectors = Inr (replicate 100 (fzero fl))"
    by (rule compute_embedding_no_fields)
qed (rule compute_embedding_falsy, assumption)+

theorem compute_embedding_total_witness:
  "vector_store [(py ''git'', replicate 100 (1::rat)), (py ''log'', replicate 100 0)] \<and>
   compute_embedding exact_ops
     \<lparr> command = Some [], description = None, keywords_field = Some [] \<rparr>
     [(py ''git'', replicate 100 1), (py ''log'', replicate 100 0)]
   = Inr (replicate 100 0) \<and>
   (\<exists>e. compute_embedding exact_ops
           \<lparr> command = None, description = Some (py ''git log''), keywords_field = None \<rparr>
           [(py ''git'', replicate 100 1), (py ''log'', replicate 100 0)] = Inr e \<and>
        length e = 100)"
proof -
  let ?W = "[(py ''git'', replicate 100 (1::rat)), (py ''log'', replicate 100 0)]"
  let ?c = "\<lparr> command = Some [], description = None, keywords_field = Some [] :: py_str list option \<rparr>"
  let ?d = "\<lparr> command = None, description = Some (py ''git log''), keywords_field = None \<rparr>"
  note t = compute_embedding_total [OF example_store, of exact_ops]
  have "\<not> truthy (command ?c)" "\<not> truthy (keywords_field (?c\<lparr>command := None\<rparr>))"
    by (simp_all add: truthy_def)
  with t [of ?c] t [of "?c\<lparr>command := None\<rparr>"]
  have "compute_embedding exact_ops ?c ?W
        = compute_embedding exact_ops \<lparr> command = None, description = None, keywords_field = None \<rparr> ?W"
    by simp
  also from t [of ?c] have "\<dots> = Inr (replicate 100 (fzero exact_ops))" by blast
  finally have "compute_embedding exact_ops ?c ?W = Inr (replicate 100 0)"
    by (simp add: exact_ops_def)
  moreover from t [of ?d]
  have "\<exists>e. compute_embedding exact_ops ?d ?W = Inr e \<and> length e = 100" by blast
  ultimately show ?thesis using example_store by blast
qed

section \<open>The embedding table\<close>












end
